theory Spec2Isabelle
  imports Complex_Main
begin

section \<open>The asset panel of the editor: \<^verbatim>\<open>src/renderer/editor/components/assets.tsx\<close>\<close>

text \<open>
  The class \<^verbatim>\<open>Assets\<close> keeps a static registry of asset components
  (\<^verbatim>\<open>_assetComponents\<close>), two flags (\<^verbatim>\<open>_isRefreshing\<close>,
  \<^verbatim>\<open>_needsRefresh\<close>) and a handful of asynchronous methods. The model below is a
  shallow embedding of these methods: an async method runs up to its next \<^verbatim>\<open>await\<close>
  and leaves a suspended frame behind; the promise a handler returned is settled later by
  an event of the environment, which resumes the frame.
\<close>

subsection \<open>JavaScript values\<close>

text \<open>
  Numbers are IEEE 754 doubles. A finite double is modelled by its value, a rational; the
  result of an operation is the exact result rounded to the nearest double, ties to even,
  as \<^verbatim>\<open>/\<close>, \<^verbatim>\<open>*\<close> and \<^verbatim>\<open>+\<close> do. There is no negative zero: the program only
  computes with lengths, 100 and sums and quotients of these, which are never negative.
\<close>

datatype jsnum = Fin rat | PInf | NInf | NaN

text \<open>The integer nearest to \<open>t\<close>, the even one of the two when \<open>t\<close> lies halfway.\<close>

definition round_even :: "rat \<Rightarrow> int" where
  "round_even t =
     (let f = \<lfloor>t\<rfloor>; r = t - of_int f
      in if r < 1 / 2 then f else if 1 / 2 < r then f + 1 else if even f then f else f + 1)"

text \<open>The binary exponent of a positive number: the \<open>e\<close> with \<open>2 ^ e \<le> x < 2 ^ (e + 1)\<close>.\<close>

function ilog2 :: "rat \<Rightarrow> int" where
  "ilog2 x = (if x \<le> 0 then 0
              else if 2 \<le> x then ilog2 (x / 2) + 1
              else if x < 1 then ilog2 (x * 2) - 1
              else 0)"
  by pat_completeness auto
termination
proof (relation "measures [\<lambda>x. nat \<lceil>1 / x\<rceil>, \<lambda>x. nat \<lfloor>x\<rfloor>]", goal_cases)
  case 1
  show ?case by simp
next
  case (2 x)
  then have x: "0 < x" "2 \<le> x" by simp_all
  then have "0 < 2 / x" "2 / x \<le> 1" "0 < 1 / x" "1 / x \<le> 1" by (simp_all add: field_simps)
  then have c: "\<lceil>1 / (x / 2)\<rceil> = 1" "\<lceil>1 / x\<rceil> = 1" by (simp_all add: ceiling_eq_iff)
  have "x < of_int \<lfloor>x\<rfloor> + 1" by linarith
  moreover have "2 \<le> \<lfloor>x\<rfloor>" using x by (simp add: le_floor_iff)
  ultimately have "x / 2 < of_int \<lfloor>x\<rfloor>" by linarith
  then have "\<lfloor>x / 2\<rfloor> < \<lfloor>x\<rfloor>" by (simp add: floor_less_iff)
  moreover have "0 < \<lfloor>x\<rfloor>" using x by (simp add: less_floor_iff)
  ultimately show ?case using c by simp
next
  case (3 x)
  then have x: "0 < x" "x < 1" by simp_all
  define y where "y = 1 / x"
  from x have y: "1 < y" by (simp add: y_def field_simps)
  then have c: "2 \<le> \<lceil>y\<rceil>" by (simp add: le_ceiling_iff)
  have "y \<le> of_int \<lceil>y\<rceil>" by (rule le_of_int_ceiling)
  moreover from c have "(2::rat) \<le> of_int \<lceil>y\<rceil>" by linarith
  ultimately have "y / 2 \<le> of_int \<lceil>y\<rceil> - 1" by linarith
  then have l: "\<lceil>y / 2\<rceil> < \<lceil>y\<rceil>" by (simp add: ceiling_less_iff)
  have e: "1 / (x * 2) = y / 2" unfolding y_def by (rule divide_divide_eq_left [symmetric])
  from c have "0 < \<lceil>y\<rceil>" by linarith
  with l have "\<lceil>1 / (x * 2)\<rceil> < \<lceil>1 / x\<rceil> \<and> 0 < \<lceil>1 / x\<rceil>"
    unfolding e unfolding y_def [symmetric] by blast
  then show ?case by simp
qed

declare ilog2.simps [simp del]

text \<open>
  Rounding to the nearest double, ties to even. The spacing of the doubles around \<open>x\<close> is
  \<open>2 ^ (e - 52)\<close> for the exponent \<open>e\<close> of \<open>x\<close>, which is at least -1022 (below that the
  doubles are subnormal, with the spacing \<open>2 ^ -1074\<close>); a result of magnitude
  \<open>2 ^ 1024\<close> or more is an infinity.
\<close>

definition round64 :: "rat \<Rightarrow> jsnum" where
  "round64 x =
     (if x = 0 then Fin 0
      else
        let e = max (ilog2 \<bar>x\<bar>) (- 1022);
            q = 2 powi (e - 52);
            r = of_int (round_even (x / q)) * q
        in if 2 powi 1024 \<le> \<bar>r\<bar> then (if 0 < x then PInf else NInf) else Fin r)"

fun js_div :: "jsnum \<Rightarrow> jsnum \<Rightarrow> jsnum" where
  "js_div NaN _ = NaN"
| "js_div _ NaN = NaN"
| "js_div (Fin a) (Fin b) =
     (if b = 0 then (if a = 0 then NaN else if 0 < a then PInf else NInf)
      else round64 (a / b))"
| "js_div (Fin a) PInf = Fin 0"
| "js_div (Fin a) NInf = Fin 0"
| "js_div PInf (Fin b) = (if 0 \<le> b then PInf else NInf)"
| "js_div NInf (Fin b) = (if 0 \<le> b then NInf else PInf)"
| "js_div PInf PInf = NaN"
| "js_div PInf NInf = NaN"
| "js_div NInf PInf = NaN"
| "js_div NInf NInf = NaN"

fun js_mul :: "jsnum \<Rightarrow> jsnum \<Rightarrow> jsnum" where
  "js_mul NaN _ = NaN"
| "js_mul _ NaN = NaN"
| "js_mul (Fin a) (Fin b) = round64 (a * b)"
| "js_mul (Fin a) PInf = (if a = 0 then NaN else if 0 < a then PInf else NInf)"
| "js_mul (Fin a) NInf = (if a = 0 then NaN else if 0 < a then NInf else PInf)"
| "js_mul PInf (Fin b) = (if b = 0 then NaN else if 0 < b then PInf else NInf)"
| "js_mul NInf (Fin b) = (if b = 0 then NaN else if 0 < b then NInf else PInf)"
| "js_mul PInf PInf = PInf"
| "js_mul PInf NInf = NInf"
| "js_mul NInf PInf = NInf"
| "js_mul NInf NInf = PInf"

fun js_add :: "jsnum \<Rightarrow> jsnum \<Rightarrow> jsnum" where
  "js_add NaN _ = NaN"
| "js_add _ NaN = NaN"
| "js_add (Fin a) (Fin b) = round64 (a + b)"
| "js_add (Fin a) PInf = PInf"
| "js_add (Fin a) NInf = NInf"
| "js_add PInf (Fin b) = PInf"
| "js_add NInf (Fin b) = NInf"
| "js_add PInf PInf = PInf"
| "js_add PInf NInf = NaN"
| "js_add NInf PInf = NaN"
| "js_add NInf NInf = NInf"

text \<open>The comparison \<^verbatim>\<open>a < b\<close> of two numbers; false as soon as one is NaN.\<close>

fun js_less :: "jsnum \<Rightarrow> jsnum \<Rightarrow> bool" where
  "js_less (Fin a) (Fin b) = (a < b)"
| "js_less (Fin a) PInf = True"
| "js_less NInf (Fin b) = True"
| "js_less NInf PInf = True"
| "js_less _ _ = False"

text \<open>The length of an array, or an index into it, as a number: an integer below
  \<open>2 ^ 32\<close>, which is a double.\<close>

definition js_of_nat :: "nat \<Rightarrow> jsnum" where
  "js_of_nat n = Fin (of_nat n)"

text \<open>
  The argument \<^verbatim>\<open>object\<close> of a refresh is an arbitrary value of which the source only
  tests the truthiness (\<^verbatim>\<open>!object\<close>) before handing it on to the handler.
\<close>

datatype jsobj = JsObj (truthy: bool) (payload: nat)

definition falsy :: "jsobj option \<Rightarrow> bool" where
  "falsy v = (case v of None \<Rightarrow> True | Some x \<Rightarrow> \<not> truthy x)"

text \<open>The errors an async method can be rejected with.\<close>

datatype error = TypeError | HandlerFailure

subsection \<open>Data model\<close>

text \<open>
  \<^verbatim>\<open>IAssetComponentItem\<close> is declared outside the files at hand; the source reads its
  fields \<^verbatim>\<open>id\<close>, \<^verbatim>\<open>key\<close>, \<^verbatim>\<open>base64\<close> and \<^verbatim>\<open>style\<close>. Everything else an item
  carries is the field \<open>other\<close> (\<open>None\<close> when the object literal has no further field).
\<close>

record item =
  id_item :: string
  key :: string
  base64 :: "string option"
  style :: "string option"
  other :: "string option"

type_synonym ifile = string

text \<open>\<^verbatim>\<open>IAssetComponent\<close>: a descriptor of the registry. \<open>ctor\<close> is the identity of the
  constructor, \<open>ref\<close> the address of the mounted instance (\<^verbatim>\<open>_ref\<close>), if any.\<close>

record component =
  title :: string
  "identifier" :: string
  ctor :: nat
  ref :: "nat option"

text \<open>The awaiter of the promise that one call of \<^verbatim>\<open>_refreshAllAssets\<close> returns:
  nobody the model follows, or the tail of \<^verbatim>\<open>addFilesToAssets\<close> (line 293).\<close>

datatype awaiter = Detached | AddFilesTail

text \<open>The parameters and locals of one call of \<^verbatim>\<open>_refreshAllAssets\<close>. The local
  \<^verbatim>\<open>progress\<close> is captured by the observers' closures, so it lives in the state and the
  frame holds its address.\<close>

record ctx =
  componentCtor :: "nat option"
  object :: "jsobj option"
  force :: "bool option"
  task :: "nat option"
  step :: jsnum
  progress :: nat
  awaiter :: awaiter

text \<open>An observer added at line 320: its identity and what its closure captured.\<close>

record observer =
  ob_id :: nat
  ob_ctx :: ctx
  ob_assetStep :: jsnum
  ob_component :: component

text \<open>
  An instance of \<^verbatim>\<open>AbstractAssets\<close>, as far as \<^verbatim>\<open>Assets\<close> touches it. \<open>items\<close> is
  \<open>None\<close> when the field holds \<^verbatim>\<open>undefined\<close> (\<^verbatim>\<open>SetCachedData\<close> can store that);
  \<open>onDropFiles\<close> says whether the optional hook is defined.
\<close>

record handler =
  items :: "item list option"
  updateAssetObservable :: "observer list"
  onDropFiles :: bool

text \<open>A suspended call: \<^verbatim>\<open>_refreshAllAssets\<close> at line 323 (locals, current component,
  components still to visit, \<^verbatim>\<open>assetStep\<close>, the observer), or \<^verbatim>\<open>addFilesToAssets\<close> at
  line 286 (files, task, handlers still to visit, \<^verbatim>\<open>length\<close>, \<^verbatim>\<open>i\<close>).\<close>

datatype frame =
    RefreshAwait ctx component "component list" jsnum nat
  | DropAwait "ifile list" nat "nat list" nat nat

text \<open>What the collaborators see: the editor's task feedback (\<^verbatim>\<open>addTaskFeedback\<close> with
  the task it returns, the amount, the message and the optional timeout), the alert, the
  inspector, the handlers' hooks, and the rejection of a promise that \<^verbatim>\<open>Assets\<close>
  returned. A handler's \<^verbatim>\<open>refresh\<close> is recorded with the item list the handler finds
  when it is called.\<close>

datatype effect =
    AddTaskFeedback nat jsnum string "nat option"
  | UpdateTaskFeedback "nat option" jsnum "string option"
  | CloseTaskFeedback "nat option" "nat option"
  | AlertShow string string
  | RefreshCalled nat "jsobj option" "item list option"
  | OnDropFilesCalled nat "ifile list"
  | InspectorRefresh
  | Rejected error

record state =
  assetComponents :: "component list"
  handlers :: "nat \<Rightarrow> handler"
  isRefreshing :: bool
  needsRefresh :: bool
  pending :: "(nat \<times> frame) list"
  progressVars :: "nat \<Rightarrow> jsnum"
  nextId :: nat
  effects :: "effect list"

definition emit :: "effect \<Rightarrow> state \<Rightarrow> state" where
  "emit e s = s\<lparr>effects := effects s @ [e]\<rparr>"

text \<open>The promise of a \<^verbatim>\<open>_refreshAllAssets\<close> call resolves: the awaiting tail of
  \<^verbatim>\<open>addFilesToAssets\<close> runs line 295. When it rejects, the tail is skipped and the
  rejection reaches the caller. The tail touches no field of \<^verbatim>\<open>Assets\<close>, so the
  microtask that separates it from the resolution is not modelled: it runs in the same
  step.\<close>

definition resolved :: "awaiter \<Rightarrow> state \<Rightarrow> state" where
  "resolved aw s = (case aw of Detached \<Rightarrow> s | AddFilesTail \<Rightarrow> emit InspectorRefresh s)"

definition rejected :: "error \<Rightarrow> state \<Rightarrow> state" where
  "rejected e s = emit (Rejected e) s"

subsection \<open>\<^verbatim>\<open>_refreshAllAssets\<close> (lines 301 to 337)\<close>

text \<open>Line 314: \<^verbatim>\<open>componentCtor && componentCtor !== component.ctor\<close> skips a component.\<close>

definition skipped :: "nat option \<Rightarrow> component \<Rightarrow> bool" where
  "skipped cc c = (case cc of None \<Rightarrow> False | Some k \<Rightarrow> k \<noteq> ctor c)"

definition forced :: "bool option \<Rightarrow> bool" where
  "forced f = (f = Some True)"

definition updating_label :: "component \<Rightarrow> string" where
  "updating_label c = ''Updating assets '' @ [CHR 0x22] @ title c @ [CHR 0x22]"

text \<open>Lines 317 to 323 for a component with a mounted instance at address \<open>a\<close> whose item
  list is \<open>its\<close>: the call of the handler's \<^verbatim>\<open>refresh\<close> and the suspension.\<close>

definition call_refresh :: "ctx \<Rightarrow> component \<Rightarrow> component list \<Rightarrow> nat \<Rightarrow> item list \<Rightarrow> state \<Rightarrow> state" where
  "call_refresh cx c rest a its s =
     (let assetStep = js_div (step cx) (js_of_nat (length its));
          h = handlers s a;
          h1 = (if forced (force cx) then h\<lparr>items := Some []\<rparr> else h);
          ob = nextId s;
          h2 = h1\<lparr>updateAssetObservable := updateAssetObservable h1 @
                 [\<lparr>ob_id = ob, ob_ctx = cx, ob_assetStep = assetStep, ob_component = c\<rparr>]\<rparr>;
          p = Suc ob
      in s\<lparr>handlers := (handlers s)(a := h2),
            effects := effects s @ [RefreshCalled a (object cx) (items h2)],
            pending := pending s @ [(p, RefreshAwait cx c rest assetStep ob)],
            nextId := Suc p\<rparr>)"

function refreshAllAssets :: "nat option \<Rightarrow> jsobj option \<Rightarrow> bool option \<Rightarrow> awaiter \<Rightarrow> state \<Rightarrow> state"
  and refresh_loop :: "ctx \<Rightarrow> component list \<Rightarrow> state \<Rightarrow> state"
where
  "refreshAllAssets cc obj f aw s =
     (if isRefreshing s then resolved aw (s\<lparr>needsRefresh := True\<rparr>)
      else
        let s1 = (if falsy obj
                  then emit (AddTaskFeedback (nextId s) (Fin 0) ''Updating assets'' (Some 0))
                         (s\<lparr>nextId := Suc (nextId s)\<rparr>)
                  else s);
            tk = (if falsy obj then Some (nextId s) else None);
            s2 = s1\<lparr>isRefreshing := True\<rparr>;
            st = js_div (Fin 100) (js_of_nat (length (assetComponents s2)));
            pv = nextId s2;
            s3 = s2\<lparr>progressVars := (progressVars s2)(pv := Fin 0), nextId := Suc pv\<rparr>
        in refresh_loop
             \<lparr>componentCtor = cc, object = obj, force = f, task = tk, step = st,
              progress = pv, awaiter = aw\<rparr>
             (assetComponents s3) s3)"
| "refresh_loop cx [] s =
     (let s1 = (if falsy (object cx) then emit (CloseTaskFeedback (task cx) (Some 0)) s else s);
          s2 = s1\<lparr>isRefreshing := False\<rparr>
      in if needsRefresh s2
         then refreshAllAssets None None None (awaiter cx) (s2\<lparr>needsRefresh := False\<rparr>)
         else resolved (awaiter cx) s2)"
| "refresh_loop cx (c # rest) s =
     (if skipped (componentCtor cx) c then refresh_loop cx rest s
      else case ref c of
        None \<Rightarrow> refresh_loop cx rest s
      | Some a \<Rightarrow>
          (case items (handlers s a) of
             None \<Rightarrow> rejected TypeError s
           | Some its \<Rightarrow> call_refresh cx c rest a its s))"
  by pat_completeness auto
termination
  apply (relation "inv_image (less_than <*lex*> less_than)
     (\<lambda>x. case x of
        Inl (cc, obj, f, aw, s) \<Rightarrow>
          ((if needsRefresh s then 1 else 0), length (assetComponents s) + 2)
      | Inr (cx, cs, s) \<Rightarrow> ((if needsRefresh s then 1 else 0), length cs + (1::nat)))")
  apply (auto simp: emit_def split: if_splits)
  done

declare refreshAllAssets.simps [simp del]

text \<open>Lines 171 to 181: the two public entry points.\<close>

definition refresh :: "nat option \<Rightarrow> jsobj option \<Rightarrow> state \<Rightarrow> state" where
  "refresh component obj s = refreshAllAssets component obj None Detached s"

definition forceRefresh :: "nat option \<Rightarrow> state \<Rightarrow> state" where
  "forceRefresh component s = refreshAllAssets component None (Some True) Detached s"

text \<open>Line 324: \<^verbatim>\<open>updateAssetObservable.remove(observer)\<close>.\<close>

definition remove_observer :: "nat \<Rightarrow> handler \<Rightarrow> handler" where
  "remove_observer ob h =
     h\<lparr>updateAssetObservable := filter (\<lambda>x. ob_id x \<noteq> ob) (updateAssetObservable h)\<rparr>"

text \<open>Lines 324 and 326, run when the awaited \<^verbatim>\<open>refresh\<close> of the instance at address
  \<open>a\<close> has resolved.\<close>

definition after_await :: "ctx \<Rightarrow> nat \<Rightarrow> jsnum \<Rightarrow> nat \<Rightarrow> state \<Rightarrow> state" where
  "after_await cx a assetStep ob s =
     (let s1 = s\<lparr>handlers := (handlers s)(a := remove_observer ob (handlers s a))\<rparr>
      in if falsy (object cx) \<and> assetStep = PInf
         then let v = js_add (progressVars s1 (progress cx)) (step cx)
              in emit (UpdateTaskFeedback (task cx) v None)
                   (s1\<lparr>progressVars := (progressVars s1)(progress cx := v)\<rparr>)
         else s1)"

text \<open>The resumption of the pass: line 324 reads \<^verbatim>\<open>component._ref\<close> again, then the loop
  goes on with the components that are left.\<close>

definition after_refresh :: "ctx \<Rightarrow> component \<Rightarrow> component list \<Rightarrow> jsnum \<Rightarrow> nat \<Rightarrow> state \<Rightarrow> state" where
  "after_refresh cx c rest assetStep ob s =
     (case ref c of
        None \<Rightarrow> rejected TypeError s
      | Some a \<Rightarrow> refresh_loop cx rest (after_await cx a assetStep ob s))"

subsection \<open>\<^verbatim>\<open>addFilesToAssets\<close> (lines 273 to 296)\<close>

text \<open>The value handed to \<^verbatim>\<open>updateTaskFeedback\<close> at line 288.\<close>

definition drop_progress :: "nat \<Rightarrow> nat \<Rightarrow> jsnum" where
  "drop_progress len i = js_mul (js_div (js_of_nat len) (js_of_nat i)) (Fin 100)"

text \<open>The loop of lines 282 to 289 from index \<open>i\<close> on, over the handlers still to visit,
  then lines 291 to 295.\<close>

fun addFiles_loop :: "ifile list \<Rightarrow> nat \<Rightarrow> nat \<Rightarrow> nat \<Rightarrow> nat list \<Rightarrow> state \<Rightarrow> state" where
  "addFiles_loop files tk len i [] s =
     refreshAllAssets None None None AddFilesTail (emit (CloseTaskFeedback (Some tk) None) s)"
| "addFiles_loop files tk len i (a # rest) s =
     (if onDropFiles (handlers s a)
      then let p = nextId s
           in s\<lparr>effects := effects s @ [OnDropFilesCalled a files],
                 pending := pending s @ [(p, DropAwait files tk rest len i)],
                 nextId := Suc p\<rparr>
      else addFiles_loop files tk len (Suc i) rest
             (emit (UpdateTaskFeedback (Some tk) (drop_progress len i) None) s))"

definition busy_title :: string where
  "busy_title = ''Please wait.''"

definition busy_message :: string where
  "busy_message =
     ''Assets are being refreshed. Please wait until the process is done before adding new files.''"

definition addFilesToAssets :: "ifile list \<Rightarrow> state \<Rightarrow> state" where
  "addFilesToAssets files s =
     (if isRefreshing s then emit (AlertShow busy_title busy_message) s
      else
        let taskFeedBack = nextId s;
            s1 = emit (AddTaskFeedback taskFeedBack (Fin 0) ''Loading Files...'' None)
                   (s\<lparr>nextId := Suc taskFeedBack\<rparr>);
            components = List.map_filter ref (assetComponents s1)
        in addFiles_loop files taskFeedBack (length components) 0 components s1)"

subsection \<open>The environment\<close>

text \<open>
  A handler notifies its \<^verbatim>\<open>updateAssetObservable\<close>: every observer's closure
  (line 321) runs.
\<close>

definition observer_callback :: "observer \<Rightarrow> state \<Rightarrow> state" where
  "observer_callback ob s =
     (let cx = ob_ctx ob in
      if falsy (object cx) \<and> ob_assetStep ob \<noteq> PInf
      then let v = js_add (progressVars s (progress cx)) (ob_assetStep ob)
           in emit (UpdateTaskFeedback (task cx) v (Some (updating_label (ob_component ob))))
                (s\<lparr>progressVars := (progressVars s)(progress cx := v)\<rparr>)
      else s)"

definition notify :: "nat \<Rightarrow> state \<Rightarrow> state" where
  "notify a s = fold observer_callback (updateAssetObservable (handlers s a)) s"

text \<open>
  Events: the three public calls; the promise with the given number settles (\<open>True\<close>:
  resolved, \<open>False\<close>: rejected), which resumes the frame that awaits it; a handler
  notifies its observers; a handler replaces its own item list. The registry and the
  mounted instances are those of the initial state: components are registered at start-up.
  A handler that throws inside \<^verbatim>\<open>refresh\<close> or \<^verbatim>\<open>onDropFiles\<close> is the rejection of
  the promise, delivered as the next event.
\<close>

datatype event =
    Refresh "nat option" "jsobj option"
  | ForceRefresh "nat option"
  | AddFiles "ifile list"
  | Settle nat bool
  | Notify nat
  | SetItems nat "item list"

definition resume :: "frame \<Rightarrow> bool \<Rightarrow> state \<Rightarrow> state" where
  "resume fr ok s =
     (case fr of
        RefreshAwait cx c rest assetStep ob \<Rightarrow>
          if ok then after_refresh cx c rest assetStep ob s else rejected HandlerFailure s
      | DropAwait files tk rest len i \<Rightarrow>
          if ok
          then addFiles_loop files tk len (Suc i) rest
                 (emit (UpdateTaskFeedback (Some tk) (drop_progress len i) None) s)
          else rejected HandlerFailure s)"

fun on_event :: "event \<Rightarrow> state \<Rightarrow> state" where
  "on_event (Refresh component obj) s = refresh component obj s"
| "on_event (ForceRefresh component) s = forceRefresh component s"
| "on_event (AddFiles files) s = addFilesToAssets files s"
| "on_event (Settle p ok) s =
     (case map_of (pending s) p of
        None \<Rightarrow> s
      | Some fr \<Rightarrow> resume fr ok (s\<lparr>pending := filter (\<lambda>q. fst q \<noteq> p) (pending s)\<rparr>))"
| "on_event (Notify a) s = notify a s"
| "on_event (SetItems a its) s = s\<lparr>handlers := (handlers s)(a := (handlers s a)\<lparr>items := Some its\<rparr>)\<rparr>"

definition run :: "event list \<Rightarrow> state \<Rightarrow> state" where
  "run es s = fold on_event es s"

text \<open>The coordinator is idle: no pass runs, none is asked for, nothing is suspended.\<close>

definition idle :: "state \<Rightarrow> bool" where
  "idle s = (\<not> isRefreshing s \<and> \<not> needsRefresh s \<and> pending s = [])"

subsection \<open>The synchronous methods\<close>

text \<open>Lines 235 to 240; \<open>None\<close> is \<^verbatim>\<open>undefined\<close>.\<close>

definition getAssetsOf :: "nat \<Rightarrow> state \<Rightarrow> item list option" where
  "getAssetsOf k s =
     (case find (\<lambda>a. ctor a = k) (assetComponents s) of
        Some assetComponent \<Rightarrow>
          (case ref assetComponent of None \<Rightarrow> None | Some r \<Rightarrow> items (handlers s r))
      | None \<Rightarrow> None)"

text \<open>Lines 246 to 251. The \<^verbatim>\<open>!\<close> of line 250 is erased by the compiler: calling
  \<^verbatim>\<open>map\<close> on \<^verbatim>\<open>undefined\<close> throws a TypeError.\<close>

definition getAssetsOfComponentId :: "string \<Rightarrow> state \<Rightarrow> error + item list" where
  "getAssetsOfComponentId i s =
     (case find (\<lambda>a. identifier a = i) (assetComponents s) of
        None \<Rightarrow> Inr []
      | Some component \<Rightarrow>
          (case getAssetsOf (ctor component) s of
             None \<Rightarrow> Inl TypeError
           | Some its \<Rightarrow>
               Inr (map (\<lambda>c. \<lparr>id_item = id_item c, key = key c, base64 = base64 c,
                               style = None, other = None\<rparr>) its)))"

text \<open>
  The object that \<^verbatim>\<open>GetCachedData\<close> builds from \<^verbatim>\<open>{ }\<close>: its own properties in the
  order of their creation (the value \<open>None\<close> is a property that holds \<^verbatim>\<open>undefined\<close>),
  and its prototype: \<open>None\<close> for \<^verbatim>\<open>Object.prototype\<close>, \<open>Some arr\<close> when the prototype
  has been set to the array \<open>arr\<close>.
\<close>

record snapshot =
  own :: "(string \<times> item list option) list"
  proto :: "item list option"

text \<open>Creating or updating an own property; a property that exists keeps its place.\<close>

fun own_set :: "string \<Rightarrow> 'v \<Rightarrow> (string \<times> 'v) list \<Rightarrow> (string \<times> 'v) list" where
  "own_set k v [] = [(k, v)]"
| "own_set k v ((k', v') # d) = (if k = k' then (k, v) # d else (k', v') # own_set k v d)"

text \<open>
  The assignment \<^verbatim>\<open>result[k] = v\<close> of line 80. For the key \<^verbatim>\<open>__proto__\<close>, unless it is
  an own property, the assignment runs the setter of \<^verbatim>\<open>Object.prototype\<close>: an array
  becomes the prototype, \<^verbatim>\<open>undefined\<close> is ignored, and no property is created. Every
  other key becomes an own property (the properties an object inherits from an array or
  from \<^verbatim>\<open>Object.prototype\<close> are writable data properties).
\<close>

definition assign :: "string \<Rightarrow> item list option \<Rightarrow> snapshot \<Rightarrow> snapshot" where
  "assign k v d =
     (if k = ''__proto__'' \<and> map_of (own d) k = None
      then (case v of None \<Rightarrow> d | Some arr \<Rightarrow> d\<lparr>proto := Some arr\<rparr>)
      else d\<lparr>own := own_set k v (own d)\<rparr>)"

text \<open>Lines 81 to 84: the four fields that are saved.\<close>

definition cached :: "item \<Rightarrow> item" where
  "cached i = \<lparr>id_item = id_item i, key = key i, base64 = base64 i, style = style i, other = None\<rparr>"

text \<open>Lines 78 to 88. \<^verbatim>\<open>ac._ref?.items.map(...)\<close> is \<^verbatim>\<open>undefined\<close> without an
  instance, and throws when the instance's \<^verbatim>\<open>items\<close> is \<^verbatim>\<open>undefined\<close>.\<close>

fun GetCachedData_loop :: "component list \<Rightarrow> state \<Rightarrow> snapshot \<Rightarrow> error + snapshot" where
  "GetCachedData_loop [] s result = Inr result"
| "GetCachedData_loop (ac # acs) s result =
     (case ref ac of
        None \<Rightarrow> GetCachedData_loop acs s (assign (title ac) None result)
      | Some r \<Rightarrow>
          (case items (handlers s r) of
             None \<Rightarrow> Inl TypeError
           | Some its \<Rightarrow> GetCachedData_loop acs s (assign (title ac) (Some (map cached its)) result)))"

definition GetCachedData :: "state \<Rightarrow> error + snapshot" where
  "GetCachedData s = GetCachedData_loop (assetComponents s) s \<lparr>own = [], proto = None\<rparr>"

text \<open>
  The keys that are array indices: the decimal numerals, without leading zero, of the
  numbers below \<open>2 ^ 32 - 1\<close>.
\<close>

fun string_of_nat :: "nat \<Rightarrow> string" where
  "string_of_nat n =
     (if n < 10 then [''0123456789'' ! n]
      else string_of_nat (n div 10) @ [''0123456789'' ! (n mod 10)])"

declare string_of_nat.simps [simp del]

definition nat_of_string :: "string \<Rightarrow> nat" where
  "nat_of_string k = foldl (\<lambda>n c. n * 10 + (of_char c - 48)) 0 k"

definition array_index :: "string \<Rightarrow> nat option" where
  "array_index k =
     (let n = nat_of_string k
      in if string_of_nat n = k \<and> n < 4294967295 then Some n else None)"

text \<open>
  The order in which \<^verbatim>\<open>for (const a in data)\<close> visits the own properties: the array
  indices in ascending order, then the other keys in the order of their creation.
\<close>

definition own_keys :: "snapshot \<Rightarrow> string list" where
  "own_keys d =
     (let ks = map fst (own d)
      in map snd (sort_key fst
           (List.map_filter (\<lambda>k. map_option (\<lambda>n. (n, k)) (array_index k)) ks)) @
         filter (\<lambda>k. array_index k = None) ks)"

text \<open>A value that \<^verbatim>\<open>data[a]\<close> can be, for a key \<open>a\<close> that the loop visits.\<close>

datatype jsvalue = Undefined | ItemArray "item list" | ItemObject item

definition own_value :: "snapshot \<Rightarrow> string \<Rightarrow> jsvalue" where
  "own_value d k = (case map_of (own d) k of Some (Some arr) \<Rightarrow> ItemArray arr | _ \<Rightarrow> Undefined)"

text \<open>
  The keys that line 95 visits, each with the value that \<^verbatim>\<open>data[a]\<close> reads at line 99:
  the own properties, then the enumerable properties of the prototype that no own property
  hides. When the prototype is an array these are its indices, and the value is an element
  of the array: an item, not a list of items. (\<^verbatim>\<open>Array.prototype\<close> and
  \<^verbatim>\<open>Object.prototype\<close> have no enumerable property.)
\<close>

definition for_in :: "snapshot \<Rightarrow> (string \<times> jsvalue) list" where
  "for_in d =
     map (\<lambda>k. (k, own_value d k)) (own_keys d) @
     (case proto d of
        None \<Rightarrow> []
      | Some arr \<Rightarrow>
          List.map_filter
            (\<lambda>j. if map_of (own d) (string_of_nat j) = None
                 then Some (string_of_nat j, ItemObject (arr ! j)) else None)
            [0..<length arr])"

text \<open>
  Lines 95 to 100, over the keys to visit. The field \<^verbatim>\<open>items\<close> of a handler is declared
  an array, and the model of a handler has an array or \<^verbatim>\<open>undefined\<close> there. When line 99
  stores an item instead (a key inherited from an array, with a mounted component of that
  title), the store has no state of the model: the loop answers \<open>Inl\<close> with the key.
\<close>

fun SetCachedData_loop :: "(string \<times> jsvalue) list \<Rightarrow> state \<Rightarrow> string + state" where
  "SetCachedData_loop [] s = Inr s"
| "SetCachedData_loop ((a, v) # es) s =
     (case find (\<lambda>ac. title ac = a) (assetComponents s) of
        None \<Rightarrow> SetCachedData_loop es s
      | Some ac \<Rightarrow>
          (case ref ac of
             None \<Rightarrow> SetCachedData_loop es s
           | Some r \<Rightarrow>
               (case v of
                  Undefined \<Rightarrow>
                    SetCachedData_loop es
                      (s\<lparr>handlers := (handlers s)(r := (handlers s r)\<lparr>items := None\<rparr>)\<rparr>)
                | ItemArray arr \<Rightarrow>
                    SetCachedData_loop es
                      (s\<lparr>handlers := (handlers s)(r := (handlers s r)\<lparr>items := Some arr\<rparr>)\<rparr>)
                | ItemObject i \<Rightarrow> Inl a)))"

definition SetCachedData :: "snapshot \<Rightarrow> state \<Rightarrow> string + state" where
  "SetCachedData data s = SetCachedData_loop (for_in data) s"

subsection \<open>Notions used to state the properties\<close>

text \<open>The handlers a pass with the filter \<open>cc\<close> has to call among the components \<open>cs\<close>:
  the mounted instances of the components whose constructor is the filter's, if there is a
  filter, in the order of the registry.\<close>

definition targets :: "nat option \<Rightarrow> component list \<Rightarrow> nat list" where
  "targets cc cs = List.map_filter ref (filter (\<lambda>c. cc = None \<or> cc = Some (ctor c)) cs)"

text \<open>No mounted instance holds \<^verbatim>\<open>undefined\<close> as its item list.\<close>

definition items_defined :: "state \<Rightarrow> bool" where
  "items_defined s =
     list_all (\<lambda>c. case ref c of None \<Rightarrow> True | Some a \<Rightarrow> items (handlers s a) \<noteq> None)
       (assetComponents s)"

fun is_refresh :: "frame \<Rightarrow> bool" where
  "is_refresh (RefreshAwait _ _ _ _ _) = True"
| "is_refresh (DropAwait _ _ _ _ _) = False"

fun is_drop :: "frame \<Rightarrow> bool" where
  "is_drop (RefreshAwait _ _ _ _ _) = False"
| "is_drop (DropAwait _ _ _ _ _) = True"

text \<open>The number of refresh passes that are executing: the calls of
  \<^verbatim>\<open>_refreshAllAssets\<close> suspended inside their loop.\<close>

definition passes :: "state \<Rightarrow> nat" where
  "passes s = length (filter (\<lambda>q. is_refresh (snd q)) (pending s))"

definition one_pass :: "state \<Rightarrow> bool" where
  "one_pass s = (passes s \<le> 1 \<and> (0 < passes s \<longrightarrow> isRefreshing s))"

text \<open>The calls of the handlers' \<^verbatim>\<open>refresh\<close> among the effects, and the values handed to
  \<^verbatim>\<open>updateTaskFeedback\<close>.\<close>

fun refresh_calls :: "effect list \<Rightarrow> (nat \<times> jsobj option \<times> item list option) list" where
  "refresh_calls [] = []"
| "refresh_calls (RefreshCalled a obj its # es) = (a, obj, its) # refresh_calls es"
| "refresh_calls (_ # es) = refresh_calls es"

fun progress_updates :: "effect list \<Rightarrow> jsnum list" where
  "progress_updates [] = []"
| "progress_updates (UpdateTaskFeedback tk v l # es) = v # progress_updates es"
| "progress_updates (_ # es) = progress_updates es"

text \<open>An environment in which the handlers do their work: \<open>resolve P n\<close> resolves, up to
  \<open>n\<close> times, the promise of the first suspended call that satisfies \<open>P\<close>.\<close>

definition first_pending :: "(frame \<Rightarrow> bool) \<Rightarrow> state \<Rightarrow> nat option" where
  "first_pending P s = map_option fst (find (\<lambda>q. P (snd q)) (pending s))"

fun resolve :: "(frame \<Rightarrow> bool) \<Rightarrow> nat \<Rightarrow> state \<Rightarrow> state" where
  "resolve P 0 s = s"
| "resolve P (Suc n) s =
     (case first_pending P s of
        None \<Rightarrow> s
      | Some p \<Rightarrow> resolve P n (on_event (Settle p True) s))"

text \<open>What the call of \<^verbatim>\<open>refresh\<close> on the handler at address \<open>a\<close> looks like in a pass
  with the arguments \<open>f\<close> (force) and \<open>obj\<close>, started in the state \<open>s\<close>: the handler is
  given \<open>obj\<close> and finds its items emptied when the pass is forced, untouched otherwise.\<close>

definition entry :: "bool option \<Rightarrow> jsobj option \<Rightarrow> state \<Rightarrow> nat \<Rightarrow> nat \<times> jsobj option \<times> item list option" where
  "entry f obj s a = (a, obj, if forced f then Some [] else items (handlers s a))"

text \<open>A pass with the locals \<open>cx\<close> is suspended in a handler's \<^verbatim>\<open>refresh\<close> and has the
  handlers \<open>T\<close> still to call; nothing else is suspended.\<close>

definition running :: "ctx \<Rightarrow> nat list \<Rightarrow> state \<Rightarrow> bool" where
  "running cx T s =
     (\<exists>p c rest aS ob a.
        pending s = [(p, RefreshAwait cx c rest aS ob)] \<and> ref c = Some a \<and>
        targets (componentCtor cx) rest = T \<and> set rest \<subseteq> set (assetComponents s) \<and>
        isRefreshing s \<and> items_defined s)"

text \<open>The state \<open>t\<close> is \<open>s\<close> after the handlers \<open>as\<close> have been called, in this order, by
  a pass with the arguments \<open>f\<close> and \<open>obj\<close>.\<close>

definition advanced :: "bool option \<Rightarrow> jsobj option \<Rightarrow> nat list \<Rightarrow> state \<Rightarrow> state \<Rightarrow> bool" where
  "advanced f obj as s t =
     (assetComponents t = assetComponents s \<and>
      refresh_calls (effects t) = refresh_calls (effects s) @ map (entry f obj s) as \<and>
      (\<forall>b. items (handlers t b) =
         (if forced f \<and> b \<in> set as then Some [] else items (handlers s b))))"

text \<open>The two refresh calls of the public interface.\<close>

fun is_refresh_call :: "event \<Rightarrow> bool" where
  "is_refresh_call (Refresh cc obj) = True"
| "is_refresh_call (ForceRefresh cc) = True"
| "is_refresh_call _ = False"


text \<open>The instance that \<^verbatim>\<open>SetCachedData\<close> finds for a key, and the value that
  \<^verbatim>\<open>GetCachedData\<close> stores for a component.\<close>

definition target_of :: "state \<Rightarrow> string \<Rightarrow> nat option" where
  "target_of s k =
     (case find (\<lambda>ac. title ac = k) (assetComponents s) of None \<Rightarrow> None | Some ac \<Rightarrow> ref ac)"



text \<open>While a pass is in flight: for each batch of \<open>bs\<close> in turn, the events of the batch
  arrive, then the awaited call of the handler resolves.\<close>

fun during :: "event list list \<Rightarrow> state \<Rightarrow> state" where
  "during [] s = s"
| "during (b # bs) s = during bs (resolve is_refresh 1 (run b s))"

subsection \<open>Example states\<close>

definition item_a :: item where
  "item_a = \<lparr>id_item = ''a'', key = ''ka'', base64 = None, style = None, other = Some ''x''\<rparr>"

definition item_b :: item where
  "item_b = \<lparr>id_item = ''b'', key = ''kb'', base64 = Some ''Zg=='', style = Some ''s'', other = None\<rparr>"

text \<open>Handler A (two items) at address 0, a component N that is not mounted, handler B
  (no item, with an \<^verbatim>\<open>onDropFiles\<close> hook) at address 1.\<close>

definition demo :: state where
  "demo =
     \<lparr>assetComponents =
        [\<lparr>title = ''A'', identifier = ''a'', ctor = 10, ref = Some 0\<rparr>,
         \<lparr>title = ''N'', identifier = ''n'', ctor = 12, ref = None\<rparr>,
         \<lparr>title = ''B'', identifier = ''b'', ctor = 11, ref = Some 1\<rparr>],
      handlers = (\<lambda>a. \<lparr>items = Some (if a = 0 then [item_a, item_b] else []),
                        updateAssetObservable = [], onDropFiles = (a = 1)\<rparr>),
      isRefreshing = False, needsRefresh = False, pending = [],
      progressVars = (\<lambda>_. Fin 0), nextId = 0, effects = []\<rparr>"


text \<open>The locals of the pass that \<^verbatim>\<open>refresh()\<close> starts in \<open>demo\<close>.\<close>

definition demo_ctx :: ctx where
  "demo_ctx =
     \<lparr>componentCtor = None, object = None, force = None, task = Some 0,
      step = js_div (Fin 100) (js_of_nat 3), progress = 1, awaiter = Detached\<rparr>"


text \<open>A mounted component titled \<^verbatim>\<open>__proto__\<close> with two items, and a mounted component
  titled \<^verbatim>\<open>1\<close>.\<close>

definition heir :: state where
  "heir =
     \<lparr>assetComponents =
        [\<lparr>title = ''__proto__'', identifier = ''p'', ctor = 10, ref = Some 0\<rparr>,
         \<lparr>title = ''1'', identifier = ''q'', ctor = 11, ref = Some 1\<rparr>],
      handlers = (\<lambda>a. \<lparr>items = Some (if a = 0 then [item_a, item_b] else [item_b]),
                        updateAssetObservable = [], onDropFiles = False\<rparr>),
      isRefreshing = False, needsRefresh = False, pending = [],
      progressVars = (\<lambda>_. Fin 0), nextId = 0, effects = []\<rparr>"

text \<open>Starting a pass reports no progress and suspends no \<^verbatim>\<open>addFilesToAssets\<close>.\<close>

definition quiet :: "state \<Rightarrow> state \<Rightarrow> bool" where
  "quiet s t = (progress_updates (effects t) = progress_updates (effects s) \<and>
                first_pending is_drop t = first_pending is_drop s)"

text \<open>Three mounted components; the second has an \<^verbatim>\<open>onDropFiles\<close> hook.\<close>

definition trio :: state where
  "trio =
     \<lparr>assetComponents =
        [\<lparr>title = ''A'', identifier = ''a'', ctor = 10, ref = Some 0\<rparr>,
         \<lparr>title = ''B'', identifier = ''b'', ctor = 11, ref = Some 1\<rparr>,
         \<lparr>title = ''C'', identifier = ''c'', ctor = 12, ref = Some 2\<rparr>],
      handlers = (\<lambda>a. \<lparr>items = Some [], updateAssetObservable = [], onDropFiles = (a = 1)\<rparr>),
      isRefreshing = False, needsRefresh = False, pending = [],
      progressVars = (\<lambda>_. Fin 0), nextId = 0, effects = []\<rparr>"

section \<open>Properties\<close>

subsection \<open>Field lemmas\<close>

lemmas eval_defs = run_def refresh_def forceRefresh_def refreshAllAssets.simps falsy_def
  emit_def skipped_def call_refresh_def forced_def js_of_nat_def Let_def resume_def
  rejected_def resolved_def addFilesToAssets_def after_refresh_def after_await_def
  remove_observer_def
  drop_progress_def first_pending_def passes_def one_pass_def items_defined_def idle_def

lemma targets_simps [simp]:
  "targets cc [] = []"
  "targets cc (c # rest) =
     (if skipped cc c then targets cc rest
      else case ref c of None \<Rightarrow> targets cc rest | Some a \<Rightarrow> a # targets cc rest)"
  by (auto simp: targets_def skipped_def List.map_filter_simps split: option.splits)

lemma targets_None: "targets None cs = List.map_filter ref cs"
  by (simp add: targets_def)

lemma emit_fields [simp]:
  "assetComponents (emit e s) = assetComponents s"
  "handlers (emit e s) = handlers s"
  "isRefreshing (emit e s) = isRefreshing s"
  "needsRefresh (emit e s) = needsRefresh s"
  "pending (emit e s) = pending s"
  "progressVars (emit e s) = progressVars s"
  "nextId (emit e s) = nextId s"
  "effects (emit e s) = effects s @ [e]"
  by (simp_all add: emit_def)

lemma resolved_fields [simp]:
  "assetComponents (resolved aw s) = assetComponents s"
  "handlers (resolved aw s) = handlers s"
  "isRefreshing (resolved aw s) = isRefreshing s"
  "needsRefresh (resolved aw s) = needsRefresh s"
  "pending (resolved aw s) = pending s"
  "progressVars (resolved aw s) = progressVars s"
  "nextId (resolved aw s) = nextId s"
  by (simp_all add: resolved_def split: awaiter.splits)

lemma rejected_fields [simp]:
  "assetComponents (rejected e s) = assetComponents s"
  "handlers (rejected e s) = handlers s"
  "isRefreshing (rejected e s) = isRefreshing s"
  "needsRefresh (rejected e s) = needsRefresh s"
  "pending (rejected e s) = pending s"
  "progressVars (rejected e s) = progressVars s"
  "nextId (rejected e s) = nextId s"
  "effects (rejected e s) = effects s @ [Rejected e]"
  by (simp_all add: rejected_def)

lemma refresh_calls_append [simp]:
  "refresh_calls (xs @ ys) = refresh_calls xs @ refresh_calls ys"
  by (induction xs rule: refresh_calls.induct) simp_all

lemma progress_updates_append [simp]:
  "progress_updates (xs @ ys) = progress_updates xs @ progress_updates ys"
  by (induction xs rule: progress_updates.induct) simp_all

lemma refresh_calls_resolved [simp]:
  "refresh_calls (effects (resolved aw s)) = refresh_calls (effects s)"
  by (simp add: resolved_def split: awaiter.splits)

lemma progress_updates_resolved [simp]:
  "progress_updates (effects (resolved aw s)) = progress_updates (effects s)"
  by (simp add: resolved_def split: awaiter.splits)

lemma passes_simps [simp]:
  "passes (emit e s) = passes s"
  "passes (resolved aw s) = passes s"
  "passes (rejected er s) = passes s"
  "passes (s\<lparr>needsRefresh := b\<rparr>) = passes s"
  "passes (s\<lparr>isRefreshing := b\<rparr>) = passes s"
  "passes (s\<lparr>nextId := n\<rparr>) = passes s"
  "passes (s\<lparr>progressVars := pv\<rparr>) = passes s"
  "passes (s\<lparr>handlers := hs\<rparr>) = passes s"
  "passes (s\<lparr>effects := es\<rparr>) = passes s"
  by (simp_all add: passes_def)

lemma call_refresh_passes [simp]:
  "passes (call_refresh cx c rest a its s) = Suc (passes s)"
  "isRefreshing (call_refresh cx c rest a its s) = isRefreshing s"
  by (simp_all add: call_refresh_def passes_def Let_def)

lemma one_pass_simps [simp]:
  "one_pass (emit e s) = one_pass s"
  "one_pass (resolved aw s) = one_pass s"
  "one_pass (rejected er s) = one_pass s"
  "one_pass (s\<lparr>needsRefresh := b\<rparr>) = one_pass s"
  "one_pass (s\<lparr>nextId := n\<rparr>) = one_pass s"
  "one_pass (s\<lparr>progressVars := pv\<rparr>) = one_pass s"
  "one_pass (s\<lparr>handlers := hs\<rparr>) = one_pass s"
  "one_pass (s\<lparr>effects := es\<rparr>) = one_pass s"
  by (simp_all add: one_pass_def)

subsection \<open>At most one pass executes\<close>

lemma one_pass_loop:
  "one_pass s \<Longrightarrow> one_pass (refreshAllAssets cc obj f aw s)"
  "passes s = 0 \<Longrightarrow> isRefreshing s \<Longrightarrow> one_pass (refresh_loop cx cs s)"
proof (induction cc obj f aw s and cx cs s rule: refreshAllAssets_refresh_loop.induct)
  case (1 cc obj f aw s)
  show ?case
  proof (cases "isRefreshing s")
    case True
    with "1.prems" show ?thesis
      by (simp add: refreshAllAssets.simps one_pass_def)
  next
    case False
    with "1.prems" have p0: "passes s = 0" by (auto simp: one_pass_def)
    note IH = "1.IH" [OF False refl refl refl refl refl refl]
    show ?thesis
      using False p0 IH
      by (subst refreshAllAssets.simps) (simp add: Let_def)
  qed
next
  case (2 cx s)
  show ?case
  proof (cases "needsRefresh s")
    case True
    have "one_pass (refreshAllAssets None None None (awaiter cx)
            ((if falsy (object cx) then emit (CloseTaskFeedback (task cx) (Some 0)) s else s)
               \<lparr>isRefreshing := False, needsRefresh := False\<rparr>))"
      by (rule "2.IH" [OF refl refl]) (use True "2.prems" in \<open>auto simp: one_pass_def\<close>)
    with True show ?thesis by (simp add: Let_def)
  next
    case False
    with "2.prems" show ?thesis by (simp add: Let_def one_pass_def)
  qed
next
  case (3 cx c rest s)
  then show ?case
    by (auto simp: one_pass_def split: option.splits)
qed

lemma one_pass_addFiles_loop:
  "one_pass s \<Longrightarrow> one_pass (addFiles_loop files tk len i rest s)"
proof (induction rest arbitrary: i s)
  case Nil
  then show ?case by (simp add: one_pass_loop(1))
next
  case (Cons a rest)
  show ?case
  proof (cases "onDropFiles (handlers s a)")
    case True
    with Cons.prems show ?thesis by (simp add: one_pass_def passes_def Let_def)
  next
    case False
    with Cons.prems show ?thesis by (simp add: Cons.IH)
  qed
qed

lemma notify_fields [simp]:
  "assetComponents (fold observer_callback obs s) = assetComponents s"
  "handlers (fold observer_callback obs s) = handlers s"
  "isRefreshing (fold observer_callback obs s) = isRefreshing s"
  "needsRefresh (fold observer_callback obs s) = needsRefresh s"
  "pending (fold observer_callback obs s) = pending s"
  "refresh_calls (effects (fold observer_callback obs s)) = refresh_calls (effects s)"
  by (induction obs arbitrary: s; simp add: observer_callback_def Let_def)+

lemma passes_filter_le:
  "passes (s\<lparr>pending := filter Q (pending s)\<rparr>) \<le> passes s"
  unfolding passes_def by (simp add: filter_filter) (metis (mono_tags, lifting) filter_cong length_filter_le filter_filter)

lemma passes_filter_less:
  "map_of ps p = Some fr \<Longrightarrow> is_refresh fr \<Longrightarrow>
   length (filter (\<lambda>q. is_refresh (snd q)) (filter (\<lambda>q. fst q \<noteq> p) ps))
     < length (filter (\<lambda>q. is_refresh (snd q)) ps)"
proof (induction ps)
  case Nil
  then show ?case by simp
next
  case (Cons q ps)
  have le: "length (filter (\<lambda>q. is_refresh (snd q)) (filter (\<lambda>q. fst q \<noteq> p) ps))
              \<le> length (filter (\<lambda>q. is_refresh (snd q)) ps)"
    by (induction ps) auto
  show ?case
  proof (cases "fst q = p")
    case True
    with Cons.prems have "snd q = fr" by (cases q) auto
    with True Cons.prems le show ?thesis by (simp add: less_Suc_eq_le)
  next
    case False
    with Cons.prems have "map_of ps p = Some fr" by (cases q) auto
    with Cons.IH Cons.prems False show ?thesis by simp
  qed
qed

lemma one_pass_after_refresh:
  "passes s = 0 \<Longrightarrow> isRefreshing s \<Longrightarrow> one_pass (after_refresh cx c rest aS ob s)"
proof (cases "ref c")
  case None
  assume "passes s = 0" "isRefreshing s"
  with None show ?thesis by (simp add: after_refresh_def one_pass_def)
next
  case (Some a)
  assume "passes s = 0" "isRefreshing s"
  with Some show ?thesis
    by (simp add: after_refresh_def after_await_def Let_def one_pass_loop(2))
qed

lemma one_pass_settle:
  assumes "one_pass s" and "map_of (pending s) p = Some fr"
  shows "one_pass (resume fr ok (s\<lparr>pending := filter (\<lambda>q. fst q \<noteq> p) (pending s)\<rparr>))"
proof (cases fr)
  case (RefreshAwait cx c rest aS ob)
  let ?s = "s\<lparr>pending := filter (\<lambda>q. fst q \<noteq> p) (pending s)\<rparr>"
  from assms(2) RefreshAwait have "passes ?s < passes s"
    unfolding passes_def using passes_filter_less [of "pending s" p fr] by simp
  with assms(1) have p0: "passes ?s = 0" and r: "isRefreshing ?s"
    by (auto simp: one_pass_def)
  show ?thesis
  proof (cases ok)
    case True
    with RefreshAwait p0 r show ?thesis
      by (simp add: resume_def one_pass_after_refresh)
  next
    case False
    with RefreshAwait p0 r show ?thesis
      by (simp add: resume_def) (simp add: one_pass_def)
  qed
next
  case (DropAwait files tk rest len i)
  let ?s = "s\<lparr>pending := filter (\<lambda>q. fst q \<noteq> p) (pending s)\<rparr>"
  have "passes ?s \<le> passes s" by (rule passes_filter_le)
  with assms(1) have "one_pass ?s" by (auto simp: one_pass_def)
  with DropAwait show ?thesis
    by (cases ok) (simp_all add: resume_def one_pass_addFiles_loop)
qed

lemma one_pass_on_event: "one_pass s \<Longrightarrow> one_pass (on_event e s)"
proof (cases e)
  case (Refresh cc obj)
  assume "one_pass s"
  with Refresh show ?thesis by (simp add: refresh_def one_pass_loop(1))
next
  case (ForceRefresh cc)
  assume "one_pass s"
  with ForceRefresh show ?thesis by (simp add: forceRefresh_def one_pass_loop(1))
next
  case (AddFiles files)
  assume "one_pass s"
  with AddFiles show ?thesis
    by (simp add: addFilesToAssets_def Let_def one_pass_addFiles_loop)
next
  case (Settle p ok)
  assume "one_pass s"
  with Settle show ?thesis
    by (simp add: one_pass_settle split: option.splits)
next
  case (Notify a)
  assume "one_pass s"
  with Notify show ?thesis
    by (simp add: notify_def one_pass_def passes_def)
next
  case (SetItems a its)
  assume "one_pass s"
  with SetItems show ?thesis by simp
qed

lemma one_pass_run: "one_pass s \<Longrightarrow> one_pass (run es s)"
  unfolding run_def by (induction es arbitrary: s) (simp_all add: one_pass_on_event)

lemma idle_one_pass: "idle s \<Longrightarrow> one_pass s"
  by (simp add: idle_def one_pass_def passes_def)

subsection \<open>A coordinator that is refreshing with no pass left\<close>

lemma busy_refreshAllAssets:
  "isRefreshing s \<Longrightarrow> refreshAllAssets cc obj f aw s = resolved aw (s\<lparr>needsRefresh := True\<rparr>)"
  by (simp add: refreshAllAssets.simps)

lemma stuck_addFiles_loop:
  "isRefreshing s \<Longrightarrow> passes s = 0 \<Longrightarrow>
   isRefreshing (addFiles_loop files tk len i rest s) \<and>
   passes (addFiles_loop files tk len i rest s) = 0 \<and>
   refresh_calls (effects (addFiles_loop files tk len i rest s)) = refresh_calls (effects s)"
proof (induction rest arbitrary: i s)
  case Nil
  then show ?case by (simp add: busy_refreshAllAssets)
next
  case (Cons a rest)
  show ?case
  proof (cases "onDropFiles (handlers s a)")
    case True
    with Cons.prems show ?thesis by (simp add: passes_def Let_def)
  next
    case False
    with Cons.prems Cons.IH [of "emit (UpdateTaskFeedback (Some tk) (drop_progress len i) None) s" "Suc i"]
    show ?thesis by simp
  qed
qed

lemma no_pass_lookup:
  "passes s = 0 \<Longrightarrow> map_of (pending s) p = Some fr \<Longrightarrow> \<not> is_refresh fr"
proof
  assume p0: "passes s = 0" and m: "map_of (pending s) p = Some fr" and r: "is_refresh fr"
  from m have "(p, fr) \<in> set (pending s)" by (rule map_of_SomeD)
  with r have "(p, fr) \<in> set (filter (\<lambda>q. is_refresh (snd q)) (pending s))" by simp
  with p0 show False by (simp add: passes_def)
qed

lemma stuck_on_event:
  assumes "isRefreshing s" and "passes s = 0"
  shows "isRefreshing (on_event e s) \<and> passes (on_event e s) = 0 \<and>
         refresh_calls (effects (on_event e s)) = refresh_calls (effects s)"
proof (cases e)
  case (Refresh cc obj)
  with assms show ?thesis by (simp add: refresh_def busy_refreshAllAssets)
next
  case (ForceRefresh cc)
  with assms show ?thesis by (simp add: forceRefresh_def busy_refreshAllAssets)
next
  case (AddFiles files)
  with assms show ?thesis by (simp add: addFilesToAssets_def)
next
  case (Settle p ok)
  show ?thesis
  proof (cases "map_of (pending s) p")
    case None
    with Settle assms show ?thesis by simp
  next
    case (Some fr)
    let ?s = "s\<lparr>pending := filter (\<lambda>q. fst q \<noteq> p) (pending s)\<rparr>"
    from assms(2) Some have nr: "\<not> is_refresh fr" by (rule no_pass_lookup)
    have "passes ?s \<le> passes s" by (rule passes_filter_le)
    with assms have st: "isRefreshing ?s" "passes ?s = 0" by simp_all
    from nr obtain files tk rest len i where fr: "fr = DropAwait files tk rest len i"
      by (cases fr) auto
    show ?thesis
    proof (cases ok)
      case True
      with Settle Some fr
        stuck_addFiles_loop [of "emit (UpdateTaskFeedback (Some tk) (drop_progress len i) None) ?s"
          files tk len "Suc i" rest] st
      show ?thesis by (simp add: resume_def)
    next
      case False
      with Settle Some fr st show ?thesis by (simp add: resume_def)
    qed
  qed
next
  case (Notify a)
  with assms show ?thesis by (simp add: notify_def passes_def)
next
  case (SetItems a its)
  with assms show ?thesis by simp
qed

lemma stuck_run:
  "isRefreshing s \<Longrightarrow> passes s = 0 \<Longrightarrow>
   isRefreshing (run es s) \<and> passes (run es s) = 0 \<and>
   refresh_calls (effects (run es s)) = refresh_calls (effects s)"
proof (induction es arbitrary: s)
  case Nil
  then show ?case by (simp add: run_def)
next
  case (Cons e es)
  from stuck_on_event [OF Cons.prems, of e] Cons.IH [of "on_event e s"]
  show ?case by (simp add: run_def)
qed

subsection \<open>Snapshot and restore\<close>












lemma target_of_handlers [simp]: "target_of (s\<lparr>handlers := h\<rparr>) = target_of s"
  by (simp add: target_of_def fun_eq_iff)









text \<open>The array indices are the numerals of the numbers below \<open>2 ^ 32 - 1\<close>; the order
  of the keys and the inherited keys on examples.\<close>

lemma digit_value: "k < 10 \<Longrightarrow> of_char (''0123456789'' ! k) - 48 = k"
proof -
  assume "k < 10"
  then have "k \<in> {0, 1, 2, 3, 4, 5, 6, 7, 8, 9}" by auto
  then show ?thesis by auto
qed

lemma nat_of_string_snoc:
  "nat_of_string (k @ [c]) = nat_of_string k * 10 + (of_char c - 48)"
  by (simp add: nat_of_string_def)

lemma nat_of_string_of_nat: "nat_of_string (string_of_nat n) = n"
proof (induction n rule: string_of_nat.induct)
  case (1 n)
  show ?case
  proof (cases "n < 10")
    case True
    then show ?thesis
      by (subst string_of_nat.simps) (simp add: nat_of_string_def digit_value)
  next
    case False
    with 1 have "nat_of_string (string_of_nat (n div 10)) = n div 10" by simp
    with False show ?thesis
      by (subst string_of_nat.simps) (simp add: nat_of_string_snoc digit_value)
  qed
qed

lemma array_index_of_nat:
  "array_index (string_of_nat n) = (if n < 4294967295 then Some n else None)"
  by (simp add: array_index_def nat_of_string_of_nat)

lemma own_keys_example:
  "own_keys \<lparr>own = [(''b'', None), (''10'', None), (''9'', None), (''01'', None)], proto = None\<rparr> =
     [''9'', ''10'', ''b'', ''01'']"
  by (simp add: own_keys_def List.map_filter_def array_index_def nat_of_string_def
        string_of_nat.simps)

lemma heir_snapshot:
  "GetCachedData heir =
     Inr \<lparr>own = [(''1'', Some [cached item_b])], proto = Some [cached item_a, cached item_b]\<rparr>"
  by (simp add: heir_def GetCachedData_def assign_def)

lemma heir_for_in:
  "for_in \<lparr>own = [(''1'', Some [cached item_b])], proto = Some [cached item_a, cached item_b]\<rparr> =
     [(''1'', ItemArray [cached item_b]), (''0'', ItemObject (cached item_a))]"
  by (simp add: for_in_def own_keys_def own_value_def List.map_filter_def array_index_def
        nat_of_string_def string_of_nat.simps)

lemma heir_restore:
  "\<exists>t. SetCachedData
          \<lparr>own = [(''1'', Some [cached item_b])], proto = Some [cached item_a, cached item_b]\<rparr>
          heir = Inr t \<and>
       items (handlers t 0) = Some [item_a, item_b] \<and>
       items (handlers t 1) = Some [cached item_b]"
  by (simp add: SetCachedData_def heir_for_in) (simp add: heir_def)

subsection \<open>The course of a pass whose handlers resolve\<close>

lemma advanced_refl: "advanced f obj [] s s"
  by (simp add: advanced_def)

lemma advanced_trans:
  assumes "advanced f obj as s t" and "advanced f obj bs t u"
  shows "advanced f obj (as @ bs) s u"
proof -
  have "map (entry f obj t) bs = map (entry f obj s) bs"
    using assms(1) by (auto simp: advanced_def entry_def)
  with assms show ?thesis by (auto simp: advanced_def)
qed

lemma items_defined_mono:
  "items_defined s \<Longrightarrow> assetComponents t = assetComponents s \<Longrightarrow>
   (\<And>b. items (handlers s b) \<noteq> None \<Longrightarrow> items (handlers t b) \<noteq> None) \<Longrightarrow> items_defined t"
  unfolding items_defined_def list_all_iff by (auto split: option.splits)

lemma advanced_items_defined:
  "advanced f obj as s t \<Longrightarrow> items_defined s \<Longrightarrow> items_defined t"
  by (rule items_defined_mono) (auto simp: advanced_def)

lemma items_definedD:
  "items_defined s \<Longrightarrow> c \<in> set (assetComponents s) \<Longrightarrow> ref c = Some a \<Longrightarrow>
   \<exists>its. items (handlers s a) = Some its"
  unfolding items_defined_def list_all_iff by (auto split: option.splits)

lemma call_refresh_fields:
  "assetComponents (call_refresh cx c rest a its s) = assetComponents s"
  "needsRefresh (call_refresh cx c rest a its s) = needsRefresh s"
  "pending (call_refresh cx c rest a its s) =
     pending s @ [(Suc (nextId s), RefreshAwait cx c rest (js_div (step cx) (js_of_nat (length its))) (nextId s))]"
  "items (handlers (call_refresh cx c rest a its s) b) =
     (if forced (force cx) \<and> b = a then Some [] else items (handlers s b))"
  "refresh_calls (effects (call_refresh cx c rest a its s)) =
     refresh_calls (effects s) @ [entry (force cx) (object cx) s a]"
  "progress_updates (effects (call_refresh cx c rest a its s)) = progress_updates (effects s)"
  by (simp_all add: call_refresh_def Let_def entry_def)

lemma advanced_call_refresh:
  "advanced (force cx) (object cx) [a] s (call_refresh cx c rest a its s)"
  by (simp add: advanced_def call_refresh_fields)

lemma loop_none:
  "targets (componentCtor cx) cs = [] \<Longrightarrow> refresh_loop cx cs s = refresh_loop cx [] s"
  by (induction cs) (auto split: option.splits if_splits)

lemma loop_some:
  assumes "targets (componentCtor cx) cs = a # T" and "set cs \<subseteq> set (assetComponents s)"
    and "items_defined s" and "pending s = []" and "isRefreshing s"
  shows "running cx T (refresh_loop cx cs s) \<and>
         advanced (force cx) (object cx) [a] s (refresh_loop cx cs s) \<and>
         needsRefresh (refresh_loop cx cs s) = needsRefresh s"
  using assms(1,2)
proof (induction cs)
  case Nil
  then show ?case by simp
next
  case (Cons c cs)
  show ?case
  proof (cases "skipped (componentCtor cx) c \<or> ref c = None")
    case True
    with Cons show ?thesis by (auto split: option.splits)
  next
    case False
    with Cons.prems have r: "ref c = Some a" and T: "targets (componentCtor cx) cs = T"
      and sub: "set cs \<subseteq> set (assetComponents s)" and c: "c \<in> set (assetComponents s)"
      by auto
    from items_definedD [OF assms(3) c r] obtain its where its: "items (handlers s a) = Some its"
      by blast
    let ?t = "call_refresh cx c cs a its s"
    have eq: "refresh_loop cx (c # cs) s = ?t"
      using False r its by simp
    have adv: "advanced (force cx) (object cx) [a] s ?t" by (rule advanced_call_refresh)
    have "running cx T ?t"
      unfolding running_def
      using r T sub assms(4,5) advanced_items_defined [OF adv assms(3)]
      by (simp add: call_refresh_fields)
    with adv eq show ?thesis by (simp add: call_refresh_fields)
  qed
qed

lemma after_await_fields:
  "assetComponents (after_await cx a aS ob s) = assetComponents s"
  "needsRefresh (after_await cx a aS ob s) = needsRefresh s"
  "isRefreshing (after_await cx a aS ob s) = isRefreshing s"
  "pending (after_await cx a aS ob s) = pending s"
  "items (handlers (after_await cx a aS ob s) b) = items (handlers s b)"
  "refresh_calls (effects (after_await cx a aS ob s)) = refresh_calls (effects s)"
  by (simp_all add: after_await_def Let_def remove_observer_def)

lemma advanced_after_await: "advanced f obj [] s (after_await cx a aS ob (s\<lparr>pending := ps\<rparr>))"
  by (simp add: advanced_def after_await_fields)

text \<open>One resolution in a running pass.\<close>

lemma resolve_none: "first_pending P s = None \<Longrightarrow> resolve P n s = s"
  by (cases n) simp_all

lemma resolve_no_pending: "pending s = [] \<Longrightarrow> resolve P n s = s"
  by (rule resolve_none) (simp add: first_pending_def)

lemma resolve_Suc_running:
  assumes "running cx T s"
  shows "\<exists>rest s'. resolve is_refresh (Suc n) s = resolve is_refresh n (refresh_loop cx rest s') \<and>
           targets (componentCtor cx) rest = T \<and> set rest \<subseteq> set (assetComponents s') \<and>
           items_defined s' \<and> pending s' = [] \<and> isRefreshing s' \<and>
           needsRefresh s' = needsRefresh s \<and> advanced f obj [] s s'"
proof -
  from assms obtain p c rest aS ob a where
    p: "pending s = [(p, RefreshAwait cx c rest aS ob)]" and r: "ref c = Some a"
    and T: "targets (componentCtor cx) rest = T" and sub: "set rest \<subseteq> set (assetComponents s)"
    and rf: "isRefreshing s" and df: "items_defined s"
    unfolding running_def by blast
  let ?s' = "after_await cx a aS ob (s\<lparr>pending := []\<rparr>)"
  have adv: "advanced f obj [] s ?s'" by (rule advanced_after_await)
  have e: "resolve is_refresh (Suc n) s = resolve is_refresh n (refresh_loop cx rest ?s')"
    using p r by (simp add: first_pending_def resume_def after_refresh_def)
  have df': "items_defined ?s'" using adv df by (rule advanced_items_defined)
  have "targets (componentCtor cx) rest = T \<and> set rest \<subseteq> set (assetComponents ?s') \<and>
        items_defined ?s' \<and> pending ?s' = [] \<and> isRefreshing ?s' \<and>
        needsRefresh ?s' = needsRefresh s \<and> advanced f obj [] s ?s'"
    using T sub rf adv df' by (simp add: after_await_fields)
  with e show ?thesis by blast
qed

lemma step_some:
  assumes "running cx (a # T) s"
  shows "\<exists>t. resolve is_refresh (Suc n) s = resolve is_refresh n t \<and> running cx T t \<and>
           advanced (force cx) (object cx) [a] s t \<and> needsRefresh t = needsRefresh s"
proof -
  from resolve_Suc_running [OF assms, of n "force cx" "object cx"] obtain rest s' where
    e: "resolve is_refresh (Suc n) s = resolve is_refresh n (refresh_loop cx rest s')"
    and T: "targets (componentCtor cx) rest = a # T" and sub: "set rest \<subseteq> set (assetComponents s')"
    and df: "items_defined s'" and p: "pending s' = []" and rf: "isRefreshing s'"
    and nr: "needsRefresh s' = needsRefresh s" and adv: "advanced (force cx) (object cx) [] s s'"
    by blast
  from loop_some [OF T sub df p rf] advanced_trans [OF adv] e nr
  show ?thesis by fastforce
qed

lemma step_last_idle:
  assumes "running cx [] s" and "\<not> needsRefresh s"
  shows "idle (resolve is_refresh (Suc n) s) \<and> advanced f obj [] s (resolve is_refresh (Suc n) s)"
proof -
  from resolve_Suc_running [OF assms(1), of n f obj] obtain rest s' where
    e: "resolve is_refresh (Suc n) s = resolve is_refresh n (refresh_loop cx rest s')"
    and T: "targets (componentCtor cx) rest = []"
    and p: "pending s' = []" and nr: "needsRefresh s' = needsRefresh s"
    and adv: "advanced f obj [] s s'"
    by blast
  let ?t = "refresh_loop cx [] s'"
  have l: "refresh_loop cx rest s' = ?t" using T by (rule loop_none)
  have i: "idle ?t" using p nr assms(2) by (simp add: idle_def Let_def)
  have a: "advanced f obj [] s' ?t"
    using nr assms(2) by (simp add: advanced_def Let_def)
  from i have "resolve is_refresh n ?t = ?t" by (simp add: resolve_no_pending idle_def)
  with e l i advanced_trans [OF adv a] show ?thesis by simp
qed

lemma start_pass:
  assumes "\<not> isRefreshing s" and "\<not> needsRefresh s" and "pending s = []" and "items_defined s"
  shows "(targets cc (assetComponents s) = [] \<longrightarrow>
            idle (refreshAllAssets cc obj f aw s) \<and>
            advanced f obj [] s (refreshAllAssets cc obj f aw s)) \<and>
         (\<forall>a T. targets cc (assetComponents s) = a # T \<longrightarrow>
            (\<exists>cx. componentCtor cx = cc \<and> object cx = obj \<and> force cx = f \<and>
                  running cx T (refreshAllAssets cc obj f aw s)) \<and>
            advanced f obj [a] s (refreshAllAssets cc obj f aw s) \<and>
            \<not> needsRefresh (refreshAllAssets cc obj f aw s))"
proof -
  define s1 where "s1 = (if falsy obj
                  then emit (AddTaskFeedback (nextId s) (Fin 0) ''Updating assets'' (Some 0))
                         (s\<lparr>nextId := Suc (nextId s)\<rparr>)
                  else s)"
  define s3 where "s3 = s1\<lparr>isRefreshing := True,
     progressVars := (progressVars s1)(nextId s1 := Fin 0), nextId := Suc (nextId s1)\<rparr>"
  define cx where "cx = \<lparr>componentCtor = cc, object = obj, force = f,
     task = (if falsy obj then Some (nextId s) else None),
     step = js_div (Fin 100) (js_of_nat (length (assetComponents s))),
     progress = nextId s1, awaiter = aw\<rparr>"
  have eq: "refreshAllAssets cc obj f aw s = refresh_loop cx (assetComponents s) s3"
    using assms(1) by (simp add: refreshAllAssets.simps Let_def s1_def s3_def cx_def)
  have adv: "advanced f obj [] s s3" by (simp add: advanced_def s3_def s1_def)
  have f3: "assetComponents s3 = assetComponents s" "pending s3 = []" "isRefreshing s3"
    "\<not> needsRefresh s3"
    using assms by (simp_all add: s3_def s1_def)
  have df: "items_defined s3" using adv assms(4) by (rule advanced_items_defined)
  have cxs: "componentCtor cx = cc" "object cx = obj" "force cx = f" by (simp_all add: cx_def)
  show ?thesis
  proof (intro conjI allI impI)
    assume T: "targets cc (assetComponents s) = []"
    let ?t = "refresh_loop cx [] s3"
    have l: "refresh_loop cx (assetComponents s) s3 = ?t"
      using T cxs by (intro loop_none) simp
    have "idle ?t" using f3 by (simp add: idle_def Let_def)
    moreover have "advanced f obj [] s3 ?t" using f3 by (simp add: advanced_def Let_def)
    ultimately show "idle (refreshAllAssets cc obj f aw s)"
      and "advanced f obj [] s (refreshAllAssets cc obj f aw s)"
      using eq l advanced_trans [OF adv] by simp_all
  next
    fix a T assume T: "targets cc (assetComponents s) = a # T"
    from T cxs have T': "targets (componentCtor cx) (assetComponents s) = a # T" by simp
    from loop_some [OF T' _ df f3(2,3)] f3(1)
    have r: "running cx T (refresh_loop cx (assetComponents s) s3)"
      and a: "advanced f obj [a] s3 (refresh_loop cx (assetComponents s) s3)"
      and n: "needsRefresh (refresh_loop cx (assetComponents s) s3) = needsRefresh s3"
      using cxs by simp_all
    from r cxs eq show "\<exists>cx. componentCtor cx = cc \<and> object cx = obj \<and> force cx = f \<and>
                  running cx T (refreshAllAssets cc obj f aw s)" by auto
    from advanced_trans [OF adv a] eq show "advanced f obj [a] s (refreshAllAssets cc obj f aw s)"
      by simp
    from n f3 eq show "\<not> needsRefresh (refreshAllAssets cc obj f aw s)" by simp
  qed
qed

lemma step_last_rerun:
  assumes "running cx [] s" and "needsRefresh s"
  shows "\<exists>t. resolve is_refresh (Suc n) s = resolve is_refresh n t \<and>
           assetComponents t = assetComponents s \<and>
           (targets None (assetComponents s) = [] \<longrightarrow> idle t \<and> advanced None None [] s t) \<and>
           (\<forall>a T. targets None (assetComponents s) = a # T \<longrightarrow>
              (\<exists>cx'. object cx' = None \<and> force cx' = None \<and> running cx' T t) \<and>
              advanced None None [a] s t \<and> \<not> needsRefresh t)"
proof -
  from resolve_Suc_running [OF assms(1), of n None None] obtain rest s' where
    e: "resolve is_refresh (Suc n) s = resolve is_refresh n (refresh_loop cx rest s')"
    and T: "targets (componentCtor cx) rest = []"
    and df: "items_defined s'" and p: "pending s' = []"
    and nr: "needsRefresh s' = needsRefresh s" and adv: "advanced None None [] s s'"
    by blast
  define s2 where "s2 = (if falsy (object cx) then emit (CloseTaskFeedback (task cx) (Some 0)) s'
     else s')\<lparr>isRefreshing := False, needsRefresh := False\<rparr>"
  let ?t = "refreshAllAssets None None None (awaiter cx) s2"
  have l: "refresh_loop cx rest s' = ?t"
    using loop_none [OF T, of s'] nr assms(2) by (simp add: Let_def s2_def)
  have a2: "advanced None None [] s' s2" by (simp add: advanced_def s2_def)
  have a: "advanced None None [] s s2" using advanced_trans [OF adv a2] by simp
  have f2: "\<not> isRefreshing s2" "\<not> needsRefresh s2" "pending s2 = []"
    using p by (simp_all add: s2_def)
  have df2: "items_defined s2" using a2 df by (rule advanced_items_defined)
  have cs: "assetComponents s2 = assetComponents s" using a by (simp add: advanced_def)
  note st = start_pass [OF f2 df2, of None None None "awaiter cx", unfolded cs]
  have c: "assetComponents ?t = assetComponents s"
  proof (cases "targets None (assetComponents s)")
    case Nil
    with st cs show ?thesis by (simp add: advanced_def)
  next
    case (Cons b U)
    with st cs show ?thesis by (simp add: advanced_def)
  qed
  have "targets None (assetComponents s) = [] \<longrightarrow> idle ?t \<and> advanced None None [] s ?t"
    using st advanced_trans [OF a, of "[]"] by simp
  moreover have "\<forall>a T. targets None (assetComponents s) = a # T \<longrightarrow>
              (\<exists>cx'. object cx' = None \<and> force cx' = None \<and> running cx' T ?t) \<and>
              advanced None None [a] s ?t \<and> \<not> needsRefresh ?t"
    using st advanced_trans [OF a] by fastforce
  ultimately show ?thesis using e l c by auto
qed

lemma drain_partial:
  assumes "running cx T s" and "k \<le> length T"
  shows "running cx (drop k T) (resolve is_refresh k s) \<and>
         advanced (force cx) (object cx) (take k T) s (resolve is_refresh k s) \<and>
         needsRefresh (resolve is_refresh k s) = needsRefresh s"
  using assms
proof (induction k arbitrary: T s)
  case 0
  then show ?case by (simp add: advanced_refl)
next
  case (Suc k)
  then obtain a T' where T: "T = a # T'" and k: "k \<le> length T'" by (cases T) auto
  from step_some [of cx a T' s k] Suc.prems(1) T obtain t where
    e: "resolve is_refresh (Suc k) s = resolve is_refresh k t" and r: "running cx T' t"
    and a: "advanced (force cx) (object cx) [a] s t" and n: "needsRefresh t = needsRefresh s"
    by blast
  from Suc.IH [OF r k] advanced_trans [OF a] e n T show ?case by fastforce
qed

lemma drain_idle:
  assumes "running cx T s" and "\<not> needsRefresh s" and "length T < n"
  shows "idle (resolve is_refresh n s) \<and>
         advanced (force cx) (object cx) T s (resolve is_refresh n s)"
  using assms
proof (induction T arbitrary: s n)
  case Nil
  then obtain m where "n = Suc m" by (cases n) auto
  with step_last_idle [OF Nil.prems(1,2)] show ?case by simp
next
  case (Cons a T)
  then obtain m where n: "n = Suc m" and m: "length T < m" by (cases n) auto
  from step_some [OF Cons.prems(1), of m] obtain t where
    e: "resolve is_refresh (Suc m) s = resolve is_refresh m t" and r: "running cx T t"
    and a: "advanced (force cx) (object cx) [a] s t" and nr: "needsRefresh t = needsRefresh s"
    by blast
  from nr Cons.prems(2) have "\<not> needsRefresh t" by simp
  from Cons.IH [OF r this m] advanced_trans [OF a] e n show ?case by fastforce
qed

lemma drain_rerun:
  assumes "running cx T s" and "needsRefresh s"
    and "length T + length (targets None (assetComponents s)) < n"
  shows "idle (resolve is_refresh n s) \<and>
         (\<exists>u. advanced (force cx) (object cx) T s u \<and>
              advanced None None (targets None (assetComponents s)) u (resolve is_refresh n s))"
  using assms
proof (induction T arbitrary: s n)
  case Nil
  then obtain m where n: "n = Suc m" and m: "length (targets None (assetComponents s)) \<le> m"
    by (cases n) auto
  from step_last_rerun [OF Nil.prems(1,2), of m] obtain t where
    e: "resolve is_refresh (Suc m) s = resolve is_refresh m t"
    and c: "assetComponents t = assetComponents s"
    and t0: "targets None (assetComponents s) = [] \<longrightarrow> idle t \<and> advanced None None [] s t"
    and t1: "\<forall>a T. targets None (assetComponents s) = a # T \<longrightarrow>
              (\<exists>cx'. object cx' = None \<and> force cx' = None \<and> running cx' T t) \<and>
              advanced None None [a] s t \<and> \<not> needsRefresh t"
    by blast
  have "idle (resolve is_refresh m t) \<and>
        advanced None None (targets None (assetComponents s)) s (resolve is_refresh m t)"
  proof (cases "targets None (assetComponents s)")
    case Nil
    with t0 have "idle t" "advanced None None [] s t" by simp_all
    moreover from this have "resolve is_refresh m t = t"
      by (simp add: resolve_no_pending idle_def)
    ultimately show ?thesis using Nil by simp
  next
    case (Cons b U)
    with t1 obtain cx' where o: "object cx' = None" "force cx' = None" and r: "running cx' U t"
      and a: "advanced None None [b] s t" and nr: "\<not> needsRefresh t" by blast
    from Cons m have "length U < m" by simp
    from drain_idle [OF r nr this] o advanced_trans [OF a] Cons show ?thesis by fastforce
  qed
  with e n advanced_refl [of "force cx" "object cx" s] show ?case by auto
next
  case (Cons a T)
  then obtain m where n: "n = Suc m"
    and m: "length T + length (targets None (assetComponents s)) < m" by (cases n) auto
  from step_some [OF Cons.prems(1), of m] obtain t where
    e: "resolve is_refresh (Suc m) s = resolve is_refresh m t" and r: "running cx T t"
    and a: "advanced (force cx) (object cx) [a] s t" and nr: "needsRefresh t = needsRefresh s"
    by blast
  from a have c: "assetComponents t = assetComponents s" by (simp add: advanced_def)
  from nr Cons.prems(2) have nt: "needsRefresh t" by simp
  from Cons.IH [OF r nt] m c obtain u where
    i: "idle (resolve is_refresh m t)" and u1: "advanced (force cx) (object cx) T t u"
    and u2: "advanced None None (targets None (assetComponents s)) u (resolve is_refresh m t)"
    by auto
  from advanced_trans [OF a u1] have "advanced (force cx) (object cx) (a # T) s u" by simp
  with i u2 e n show ?case by auto
qed

lemma running_pending: "running cx T s \<Longrightarrow> length (pending s) = 1 \<and> isRefreshing s \<and> passes s = 1"
  by (auto simp: running_def passes_def)

lemma pass_prefix:
  assumes "idle s" and "items_defined s"
  shows "advanced f obj (take (Suc k) (targets cc (assetComponents s))) s
           (resolve is_refresh k (refreshAllAssets cc obj f aw s)) \<and>
         length (pending (resolve is_refresh k (refreshAllAssets cc obj f aw s))) \<le> 1 \<and>
         (length (targets cc (assetComponents s)) \<le> k \<longrightarrow>
            idle (resolve is_refresh k (refreshAllAssets cc obj f aw s)))"
proof -
  let ?t0 = "refreshAllAssets cc obj f aw s"
  from assms(1) have i: "\<not> isRefreshing s" "\<not> needsRefresh s" "pending s = []"
    by (simp_all add: idle_def)
  note st = start_pass [OF i assms(2), of cc obj f aw]
  show ?thesis
  proof (cases "targets cc (assetComponents s)")
    case Nil
    with st have "idle ?t0" "advanced f obj [] s ?t0" by simp_all
    moreover from this have "resolve is_refresh k ?t0 = ?t0"
      by (simp add: resolve_no_pending idle_def)
    ultimately show ?thesis using Nil by (simp add: idle_def)
  next
    case (Cons a T)
    with st obtain cx where cx: "object cx = obj" "force cx = f" and r: "running cx T ?t0"
      and a: "advanced f obj [a] s ?t0" and nr: "\<not> needsRefresh ?t0" by blast
    show ?thesis
    proof (cases "k \<le> length T")
      case True
      from drain_partial [OF r True] cx
      have r': "running cx (drop k T) (resolve is_refresh k ?t0)"
        and a': "advanced f obj (take k T) ?t0 (resolve is_refresh k ?t0)" by simp_all
      from advanced_trans [OF a a'] running_pending [OF r'] Cons True show ?thesis by simp
    next
      case False
      then have "length T < k" by simp
      from drain_idle [OF r nr this] cx
      have "idle (resolve is_refresh k ?t0)" "advanced f obj T ?t0 (resolve is_refresh k ?t0)"
        by simp_all
      with advanced_trans [OF a, of T] Cons False show ?thesis by (simp add: idle_def)
    qed
  qed
qed

lemma busy_calls:
  "isRefreshing s \<Longrightarrow> \<forall>e\<in>set calls. is_refresh_call e \<Longrightarrow>
   run calls s = (if calls = [] then s else s\<lparr>needsRefresh := True\<rparr>)"
proof (induction calls arbitrary: s)
  case Nil
  then show ?case by (simp add: run_def)
next
  case (Cons e calls)
  from Cons.prems have "on_event e s = s\<lparr>needsRefresh := True\<rparr>"
    by (cases e) (simp_all add: refresh_def forceRefresh_def busy_refreshAllAssets resolved_def)
  with Cons.IH [of "s\<lparr>needsRefresh := True\<rparr>"] Cons.prems show ?case
    by (simp add: run_def)
qed

lemma items_defined_flag: "items_defined (s\<lparr>needsRefresh := b\<rparr>) = items_defined s"
  by (auto simp: items_defined_def list_all_iff split: option.splits)

lemma running_flag: "running cx T s \<Longrightarrow> running cx T (s\<lparr>needsRefresh := b\<rparr>)"
  by (simp add: running_def items_defined_flag)

lemma during_running:
  assumes "running cx T s" and "length bs \<le> length T"
    and "\<forall>b\<in>set bs. \<forall>e\<in>set b. is_refresh_call e"
  shows "running cx (drop (length bs) T) (during bs s) \<and>
         advanced (force cx) (object cx) (take (length bs) T) s (during bs s) \<and>
         needsRefresh (during bs s) = (needsRefresh s \<or> (\<exists>b\<in>set bs. b \<noteq> []))"
  using assms
proof (induction bs arbitrary: T s)
  case Nil
  then show ?case by (simp add: advanced_refl)
next
  case (Cons b bs)
  then obtain a T' where T: "T = a # T'" and k: "length bs \<le> length T'" by (cases T) auto
  let ?s' = "run b s"
  from running_pending [OF Cons.prems(1)] have "isRefreshing s" by simp
  from busy_calls [OF this, of b] Cons.prems(3)
  have s': "?s' = (if b = [] then s else s\<lparr>needsRefresh := True\<rparr>)" by simp
  with Cons.prems(1) T have r': "running cx (a # T') ?s'" by (simp add: running_flag)
  from s' have a': "advanced (force cx) (object cx) [] s ?s'" by (simp add: advanced_def)
  from s' have n': "needsRefresh ?s' = (needsRefresh s \<or> b \<noteq> [])" by simp
  from step_some [OF r', of 0] obtain t where
    e: "resolve is_refresh 1 ?s' = t" and r: "running cx T' t"
    and a: "advanced (force cx) (object cx) [a] ?s' t" and n: "needsRefresh t = needsRefresh ?s'"
    by auto
  from Cons.prems(3) have "\<forall>b\<in>set bs. \<forall>e\<in>set b. is_refresh_call e" by simp
  from Cons.IH [OF r k this] advanced_trans [OF advanced_trans [OF a' a]] e n n' T
  show ?case by fastforce
qed

subsection \<open>The loop of \<^verbatim>\<open>addFilesToAssets\<close>\<close>

lemma quiet_refl [simp]: "quiet s s"
  by (simp add: quiet_def)

lemma quiet_trans: "quiet s t \<Longrightarrow> quiet t u \<Longrightarrow> quiet s u"
  by (simp add: quiet_def)

lemma first_pending_simps [simp]:
  "first_pending P (emit e s) = first_pending P s"
  "first_pending P (resolved aw s) = first_pending P s"
  "first_pending P (rejected er s) = first_pending P s"
  "first_pending P (s\<lparr>needsRefresh := b\<rparr>) = first_pending P s"
  "first_pending P (s\<lparr>isRefreshing := b\<rparr>) = first_pending P s"
  "first_pending P (s\<lparr>nextId := n\<rparr>) = first_pending P s"
  "first_pending P (s\<lparr>progressVars := pv\<rparr>) = first_pending P s"
  "first_pending P (s\<lparr>handlers := hs\<rparr>) = first_pending P s"
  "first_pending P (s\<lparr>effects := es\<rparr>) = first_pending P s"
  by (simp_all add: first_pending_def)

lemma find_snoc_no: "\<not> P x \<Longrightarrow> find P (xs @ [x]) = find P xs"
  by (induction xs) auto

lemma quiet_call_refresh: "quiet s (call_refresh cx c rest a its s)"
  by (simp add: quiet_def call_refresh_def Let_def first_pending_def find_snoc_no)

lemma quiet_loop:
  "quiet s (refreshAllAssets cc obj f aw s)"
  "quiet s (refresh_loop cx cs s)"
proof (induction cc obj f aw s and cx cs s rule: refreshAllAssets_refresh_loop.induct)
  case (1 cc obj f aw s)
  show ?case
  proof (cases "isRefreshing s")
    case True
    then show ?thesis by (simp add: refreshAllAssets.simps quiet_def)
  next
    case False
    note IH = "1.IH" [OF False refl refl refl refl refl refl]
    show ?thesis
      using False IH
      by (subst refreshAllAssets.simps) (auto simp: Let_def quiet_def)
  qed
next
  case (2 cx s)
  show ?case
  proof (cases "needsRefresh s")
    case True
    have "quiet ((if falsy (object cx) then emit (CloseTaskFeedback (task cx) (Some 0)) s else s)
               \<lparr>isRefreshing := False, needsRefresh := False\<rparr>)
           (refreshAllAssets None None None (awaiter cx)
            ((if falsy (object cx) then emit (CloseTaskFeedback (task cx) (Some 0)) s else s)
               \<lparr>isRefreshing := False, needsRefresh := False\<rparr>))"
      by (rule "2.IH" [OF refl refl]) (use True in simp)
    with True show ?thesis by (auto simp: Let_def quiet_def)
  next
    case False
    then show ?thesis by (simp add: Let_def quiet_def)
  qed
next
  case (3 cx c rest s)
  then show ?case
    by (auto simp: quiet_call_refresh [unfolded quiet_def] quiet_def split: option.splits)
qed

lemma addFiles_loop_drained:
  "pending s = [] \<Longrightarrow> length rest \<le> n \<Longrightarrow>
   progress_updates (effects (resolve is_drop n (addFiles_loop files tk len i rest s))) =
     progress_updates (effects s) @ map (drop_progress len) [i..<i + length rest]"
proof (induction rest arbitrary: s i n)
  case Nil
  let ?s = "emit (CloseTaskFeedback (Some tk) None) s"
  let ?t = "refreshAllAssets None None None AddFilesTail ?s"
  have q: "quiet ?s ?t" by (rule quiet_loop(1))
  from Nil.prems(1) have "first_pending is_drop ?s = None" by (simp add: first_pending_def)
  with q have "first_pending is_drop ?t = None" by (simp add: quiet_def)
  then have "resolve is_drop n ?t = ?t" by (rule resolve_none)
  with q show ?case by (simp add: quiet_def)
next
  case (Cons a rest)
  let ?u = "emit (UpdateTaskFeedback (Some tk) (drop_progress len i) None)"
  have up: "[i..<i + length (a # rest)] = i # [Suc i..<Suc i + length rest]"
    by (subst upt_rec) simp
  show ?case
  proof (cases "onDropFiles (handlers s a)")
    case True
    from Cons.prems(2) obtain m where n: "n = Suc m" and m: "length rest \<le> m"
      by (cases n) auto
    let ?s1 = "s\<lparr>effects := effects s @ [OnDropFilesCalled a files],
                 pending := [(nextId s, DropAwait files tk rest len i)],
                 nextId := Suc (nextId s)\<rparr>"
    have l: "addFiles_loop files tk len i (a # rest) s = ?s1"
      using True Cons.prems(1) by (simp add: Let_def)
    have r: "resolve is_drop (Suc m) ?s1 =
             resolve is_drop m (addFiles_loop files tk len (Suc i) rest (?u (?s1\<lparr>pending := []\<rparr>)))"
      by (simp add: first_pending_def resume_def)
    have "pending (?u (?s1\<lparr>pending := []\<rparr>)) = []" by simp
    from Cons.IH [OF this m, of "Suc i"] l r n up show ?thesis by simp
  next
    case False
    from Cons.prems have p: "pending (?u s) = []" and m: "length rest \<le> n" by simp_all
    from Cons.IH [OF p m, of "Suc i"] False up show ?thesis by simp
  qed
qed

subsection \<open>Rounding to doubles\<close>

lemma powi_Suc: "(2::rat) powi (k + 1) = 2 powi k * 2"
  by (simp add: power_int_add)

lemma powi_pred: "(2::rat) powi (k - 1) = 2 powi k / 2"
  by (simp add: power_int_diff)

lemma ilog2_bounds: "0 < x \<Longrightarrow> 2 powi ilog2 x \<le> x \<and> x < 2 powi (ilog2 x + 1)"
proof (induction x rule: ilog2.induct)
  case (1 x)
  show ?case
  proof (cases "2 \<le> x")
    case True
    with "1.prems" have e: "ilog2 x = ilog2 (x / 2) + 1" by (subst ilog2.simps) simp
    from "1.IH"(1) [OF _ True] "1.prems"
    have "2 powi ilog2 (x / 2) \<le> x / 2 \<and> x / 2 < 2 powi (ilog2 (x / 2) + 1)" by simp
    then show ?thesis unfolding e powi_Suc by (simp add: field_simps)
  next
    case False
    show ?thesis
    proof (cases "x < 1")
      case True
      with "1.prems" False have e: "ilog2 x = ilog2 (x * 2) - 1" by (subst ilog2.simps) simp
      from "1.IH"(2) [OF _ False True] "1.prems"
      have "2 powi ilog2 (x * 2) \<le> x * 2 \<and> x * 2 < 2 powi (ilog2 (x * 2) + 1)" by simp
      then have "2 powi ilog2 (x * 2) / 2 \<le> x" and "x < 2 powi ilog2 (x * 2)"
        unfolding powi_Suc by linarith+
      moreover have "ilog2 (x * 2) - 1 + 1 = ilog2 (x * 2)" by simp
      ultimately show ?thesis unfolding e powi_pred by simp
    next
      case b: False
      with "1.prems" False have "ilog2 x = 0" by (subst ilog2.simps) simp
      with False b show ?thesis by simp
    qed
  qed
qed

lemma round_even_error: "\<bar>of_int (round_even t) - t\<bar> \<le> 1 / 2"
proof -
  have "of_int \<lfloor>t\<rfloor> \<le> t" "t < of_int \<lfloor>t\<rfloor> + 1" by linarith+
  then show ?thesis
    by (auto simp: round_even_def Let_def abs_le_iff)
qed

text \<open>Rounding a number of at least 1 and below \<open>2 ^ 1023\<close>: a finite double within half a
  unit in the last place.\<close>

lemma round64_normal:
  assumes "1 \<le> x" and "x < 2 ^ 1023"
  shows "round64 x =
           Fin (of_int (round_even (x / 2 powi (ilog2 x - 52))) * 2 powi (ilog2 x - 52)) \<and>
         \<bar>of_int (round_even (x / 2 powi (ilog2 x - 52))) * 2 powi (ilog2 x - 52) - x\<bar>
           \<le> x / 2 ^ 53"
proof -
  from assms(1) have pos: "0 < x" by simp
  define e where "e = ilog2 x"
  from ilog2_bounds [OF pos] have lo: "2 powi e \<le> x" and hi: "x < 2 powi (e + 1)"
    by (simp_all add: e_def)
  have e0: "0 \<le> e"
  proof (rule ccontr)
    assume "\<not> 0 \<le> e"
    then have "e + 1 \<le> 0" by simp
    then have "(2::rat) powi (e + 1) \<le> 2 powi 0" by (intro power_int_increasing) simp_all
    with hi assms(1) show False by simp
  qed
  define q :: rat where "q = 2 powi (e - 52)"
  have q0: "0 < q" by (simp add: q_def)
  have q53: "q / 2 = 2 powi e / 2 ^ 53"
    by (simp add: q_def power_int_diff)
  define r where "r = of_int (round_even (x / q)) * q"
  have "\<bar>r - x\<bar> = \<bar>of_int (round_even (x / q)) - x / q\<bar> * q"
    using q0 by (simp add: r_def abs_mult [symmetric] field_simps)
  also have "\<dots> \<le> 1 / 2 * q"
    using round_even_error [of "x / q"] q0 by (intro mult_right_mono) simp_all
  also have "\<dots> = 2 powi e / 2 ^ 53" using q53 by simp
  also have "\<dots> \<le> x / 2 ^ 53" using lo by (simp add: divide_right_mono)
  finally have err: "\<bar>r - x\<bar> \<le> x / 2 ^ 53" .
  then have "r \<le> x + x / 2 ^ 53" by linarith
  also have "\<dots> \<le> 2 * x" using pos by simp
  also have "\<dots> < 2 * 2 ^ 1023" using assms(2) by simp
  finally have r1: "r < 2 ^ 1024" by simp
  from err pos have r0: "0 \<le> r"
  proof -
    from err have "x - x / 2 ^ 53 \<le> r" by linarith
    moreover have "0 \<le> x - x / 2 ^ 53" using pos by (simp add: field_simps)
    ultimately show ?thesis by simp
  qed
  have ax: "\<bar>x\<bar> = x" using pos by simp
  have m: "max (ilog2 x) (- 1022) = e" using e0 by (simp add: e_def)
  have nz: "(x = 0) = False" using pos by simp
  have body: "round64 x = (if 2 powi 1024 \<le> \<bar>r\<bar> then (if 0 < x then PInf else NInf) else Fin r)"
    unfolding round64_def Let_def ax m r_def q_def nz by (rule if_False)
  have "\<not> (2::rat) powi 1024 \<le> \<bar>r\<bar>" using r0 r1 by simp
  with body have "round64 x = Fin r" by (simp only: if_False)
  with err show ?thesis unfolding r_def q_def e_def by blast
qed

lemma round64_error:
  assumes "1 \<le> x" and "x < 2 ^ 1023"
  shows "\<exists>r. round64 x = Fin r \<and> \<bar>r - x\<bar> \<le> x / 2 ^ 53"
  using round64_normal [OF assms] by blast

lemma powi_less_cancel: "(2::rat) powi a < 2 powi b \<Longrightarrow> a < b"
proof (rule ccontr)
  assume l: "(2::rat) powi a < 2 powi b" and "\<not> a < b"
  then have "b \<le> a" by simp
  then have "(2::rat) powi b \<le> 2 powi a" by (intro power_int_increasing) simp_all
  with l show False by simp
qed

lemma ilog2_unique:
  assumes "0 < x" and "2 powi e \<le> x" and "x < 2 powi (e + 1)"
  shows "ilog2 x = e"
proof -
  from ilog2_bounds [OF assms(1)]
  have lo: "2 powi ilog2 x \<le> x" and hi: "x < 2 powi (ilog2 x + 1)" by simp_all
  from lo assms(3) have "(2::rat) powi ilog2 x < 2 powi (e + 1)" by (rule le_less_trans)
  then have "ilog2 x < e + 1" by (rule powi_less_cancel)
  moreover from assms(2) hi have "(2::rat) powi e < 2 powi (ilog2 x + 1)" by (rule le_less_trans)
  then have "e < ilog2 x + 1" by (rule powi_less_cancel)
  ultimately show ?thesis by simp
qed

text \<open>To compute a rounding: give the exponent.\<close>

lemma round64_at:
  assumes "(2::rat) ^ k \<le> x" and "x < 2 ^ Suc k" and "k \<le> 1000"
  shows "round64 x = Fin (of_int (round_even (x * 2 ^ 52 / 2 ^ k)) * 2 ^ k / 2 ^ 52)"
proof -
  have "(1::rat) \<le> 2 ^ k" by simp
  from this assms(1) have x1: "1 \<le> x" by (rule order_trans)
  have "(2::rat) ^ Suc k \<le> 2 ^ 1023" using assms(3) by (intro power_increasing) simp_all
  with assms(2) have x2: "x < 2 ^ 1023" by (rule less_le_trans)
  have "ilog2 x = int k"
  proof (rule ilog2_unique)
    show "0 < x" using x1 by simp
    show "2 powi int k \<le> x" using assms(1) by simp
    have "(2::rat) powi (int k + 1) = 2 ^ Suc k" by (simp add: power_int_add)
    with assms(2) show "x < 2 powi (int k + 1)" by simp
  qed
  note k = this
  have q: "(2::rat) powi (int k - 52) = 2 ^ k / 2 ^ 52" by (simp add: power_int_diff)
  from round64_normal [OF x1 x2]
  have "round64 x =
          Fin (of_int (round_even (x / 2 powi (ilog2 x - 52))) * 2 powi (ilog2 x - 52))"
    by blast
  then show ?thesis
    unfolding k q by (simp only: divide_divide_eq_right times_divide_eq_right)
qed

lemma round_even_frac:
  assumes "0 < q"
  shows "round_even (of_int p / of_int q) =
           (if 2 * (p mod q) < q then p div q
            else if q < 2 * (p mod q) then p div q + 1
            else if even (p div q) then p div q else p div q + 1)"
proof -
  have f: "\<lfloor>(of_int p :: rat) / of_int q\<rfloor> = p div q" by (rule floor_divide_of_int_eq)
  have e: "(of_int p :: rat) = of_int (p div q) * of_int q + of_int (p mod q)"
    by (metis div_mult_mod_eq of_int_add of_int_mult)
  have "(of_int (p div q) * of_int q + of_int (p mod q)) / (of_int q :: rat) =
        of_int (p div q) + of_int (p mod q) / of_int q"
    using assms by (simp add: add_divide_distrib)
  with e have "(of_int p :: rat) / of_int q = of_int (p div q) + of_int (p mod q) / of_int q"
    by simp
  then have r: "(of_int p :: rat) / of_int q - of_int (p div q) = of_int (p mod q) / of_int q"
    by simp
  have a: "((of_int (p mod q) :: rat) / of_int q < 1 / 2) = (2 * (p mod q) < q)"
  proof -
    have "((of_int (p mod q) :: rat) / of_int q < 1 / 2) = ((of_int (2 * (p mod q)) :: rat) < of_int q)"
      using assms by (simp add: field_simps)
    then show ?thesis by (simp only: of_int_less_iff)
  qed
  have b: "(1 / 2 < (of_int (p mod q) :: rat) / of_int q) = (q < 2 * (p mod q))"
  proof -
    have "(1 / 2 < (of_int (p mod q) :: rat) / of_int q) = ((of_int q :: rat) < of_int (2 * (p mod q)))"
      using assms by (simp add: field_simps)
    then show ?thesis by (simp only: of_int_less_iff)
  qed
  show ?thesis unfolding round_even_def Let_def f r a b ..
qed

lemma round_even_numeral:
  "round_even (numeral a / numeral b) =
     (if 2 * (numeral a mod numeral b) < (numeral b :: int) then numeral a div numeral b
      else if (numeral b :: int) < 2 * (numeral a mod numeral b) then numeral a div numeral b + 1
      else if even (numeral a div numeral b :: int) then numeral a div numeral b
      else numeral a div numeral b + 1)"
  "round_even (numeral a) = numeral a"
  using round_even_frac [of "numeral b" "numeral a"] round_even_frac [of 1 "numeral a"]
  by simp_all

lemma round64_values:
  "round64 3 = Fin 3"
  "round64 300 = Fin 300"
  "round64 (3 / 2) = Fin (3 / 2)"
  "round64 150 = Fin 150"
  "round64 (7 / 3) = Fin (5254199565265579 / 2251799813685248)"
  "round64 (131354989131639475 / 562949953421312) = Fin (8209686820727467 / 35184372088832)"
  using round64_at [of 1 3] round64_at [of 8 300] round64_at [of 0 "3 / 2"]
    round64_at [of 7 150] round64_at [of 1 "7 / 3"]
    round64_at [of 7 "131354989131639475 / 562949953421312"]
  by (simp_all add: round_even_numeral)

lemma drop_progress_zero: "0 < len \<Longrightarrow> drop_progress len 0 = PInf"
  by (simp add: drop_progress_def js_of_nat_def)

text \<open>For a length below \<open>2 ^ 32\<close> and an index from 1 up to the length, the value
  reported is finite and within two roundings of \<open>len / i * 100\<close>.\<close>

lemma drop_progress_range:
  assumes "0 < i" and "i \<le> len" and "len < 2 ^ 32"
  shows "\<exists>c. drop_progress len i = Fin c \<and>
           100 * (of_nat len / of_nat i) * (1 - 1 / 2 ^ 53) * (1 - 1 / 2 ^ 53) \<le> c \<and>
           c \<le> 100 * (of_nat len / of_nat i) * (1 + 1 / 2 ^ 53) * (1 + 1 / 2 ^ 53)"
proof -
  define x :: rat where "x = of_nat len / of_nat i"
  from assms(1,2) have x1: "1 \<le> x" by (simp add: x_def)
  have "(1::rat) \<le> of_nat i" using assms(1) by simp
  then have "of_nat len / of_nat i \<le> (of_nat len :: rat) / 1"
    by (intro divide_left_mono) simp_all
  then have "x \<le> of_nat len" by (simp add: x_def)
  also have "(of_nat len :: rat) < 2 ^ 32"
    using assms(3) by (metis of_nat_less_iff of_nat_numeral of_nat_power)
  finally have x2: "x < 2 ^ 32" .
  then have "x < 2 ^ 1023"
    by (rule less_trans) simp
  from round64_error [OF x1 this] obtain a where
    a: "round64 x = Fin a" and ea: "\<bar>a - x\<bar> \<le> x / 2 ^ 53" by blast
  have xm: "x * (1 - 1 / 2 ^ 53) = x - x / 2 ^ 53" and xp: "x * (1 + 1 / 2 ^ 53) = x + x / 2 ^ 53"
    by (simp_all add: algebra_simps)
  from ea have a_lo: "x * (1 - 1 / 2 ^ 53) \<le> a" and a_hi: "a \<le> x * (1 + 1 / 2 ^ 53)"
    unfolding xm xp by linarith+
  have "(1::rat) \<le> 100 * (1 * (1 - 1 / 2 ^ 53))" by simp
  also have "\<dots> \<le> 100 * (x * (1 - 1 / 2 ^ 53))"
    using x1 by (intro mult_left_mono mult_right_mono) simp_all
  also have "\<dots> \<le> a * 100" using a_lo by simp
  finally have y1: "1 \<le> a * 100" .
  have "a * 100 \<le> x * (1 + 1 / 2 ^ 53) * 100" using a_hi by simp
  also have "\<dots> \<le> 2 ^ 32 * (1 + 1 / 2 ^ 53) * 100"
    using x2 by (intro mult_right_mono) simp_all
  also have "\<dots> < (2::rat) ^ 1023" by simp
  finally have y2: "a * 100 < 2 ^ 1023" .
  from round64_error [OF y1 y2] obtain c where
    c: "round64 (a * 100) = Fin c" and ec: "\<bar>c - a * 100\<bar> \<le> a * 100 / 2 ^ 53" by blast
  have ym: "a * 100 * (1 - 1 / 2 ^ 53) = a * 100 - a * 100 / 2 ^ 53"
    and yp: "a * 100 * (1 + 1 / 2 ^ 53) = a * 100 + a * 100 / 2 ^ 53"
    by (simp_all add: algebra_simps)
  from ec have c_lo: "a * 100 * (1 - 1 / 2 ^ 53) \<le> c" and c_hi: "c \<le> a * 100 * (1 + 1 / 2 ^ 53)"
    unfolding ym yp by linarith+
  have "100 * x * (1 - 1 / 2 ^ 53) * (1 - 1 / 2 ^ 53) \<le> a * 100 * (1 - 1 / 2 ^ 53)"
    using a_lo by simp
  from this c_lo have lo: "100 * x * (1 - 1 / 2 ^ 53) * (1 - 1 / 2 ^ 53) \<le> c"
    by (rule order_trans)
  have "a * 100 * (1 + 1 / 2 ^ 53) \<le> 100 * x * (1 + 1 / 2 ^ 53) * (1 + 1 / 2 ^ 53)"
    using a_hi by simp
  from c_hi this have hi: "c \<le> 100 * x * (1 + 1 / 2 ^ 53) * (1 + 1 / 2 ^ 53)"
    by (rule order_trans)
  have "drop_progress len i = Fin c"
    using assms(1) a c by (simp add: drop_progress_def js_of_nat_def x_def)
  with lo hi show ?thesis unfolding x_def by blast
qed

lemma drop_progress_decreasing:
  assumes "i < j" and "j \<le> len" and "len < 2 ^ 32"
  shows "js_less (drop_progress len j) (drop_progress len i)"
proof -
  from assms have j0: "0 < j" and len0: "0 < len" by simp_all
  from drop_progress_range [OF j0 assms(2,3)] obtain d where
    d: "drop_progress len j = Fin d"
    and d_hi: "d \<le> 100 * (of_nat len / of_nat j) * (1 + 1 / 2 ^ 53) * (1 + 1 / 2 ^ 53)"
    by blast
  show ?thesis
  proof (cases "i = 0")
    case True
    with d len0 show ?thesis by (simp add: drop_progress_zero)
  next
    case False
    then have i0: "0 < i" by simp
    from assms have il: "i \<le> len" by simp
    from drop_progress_range [OF i0 il assms(3)] obtain c where
      c: "drop_progress len i = Fin c"
      and c_lo: "100 * (of_nat len / of_nat i) * (1 - 1 / 2 ^ 53) * (1 - 1 / 2 ^ 53) \<le> c"
      by blast
    define I :: rat where "I = of_nat i"
    define J :: rat where "J = of_nat j"
    define L :: rat where "L = of_nat len"
    have I0: "0 < I" and J0: "0 < J" and L0: "0 < L"
      using i0 j0 len0 by (simp_all add: I_def J_def L_def)
    have "i + 1 \<le> j" using assms(1) by simp
    then have IJ: "I + 1 \<le> J" unfolding I_def J_def by (metis of_nat_1 of_nat_add of_nat_le_iff)
    have "i < 2 ^ 32" using assms by simp
    then have I32: "I < 2 ^ 32"
      unfolding I_def by (metis of_nat_less_iff of_nat_numeral of_nat_power)
    have "I * ((1 + 1 / 2 ^ 53) * (1 + 1 / 2 ^ 53)) < (I + 1) * ((1 - 1 / 2 ^ 53) * (1 - 1 / 2 ^ 53))"
      using I32 I0 by (simp add: field_simps)
    also have "\<dots> \<le> J * ((1 - 1 / 2 ^ 53) * (1 - 1 / 2 ^ 53))"
      using IJ by (intro mult_right_mono) simp_all
    finally have k: "I * ((1 + 1 / 2 ^ 53) * (1 + 1 / 2 ^ 53)) < J * ((1 - 1 / 2 ^ 53) * (1 - 1 / 2 ^ 53))" .
    have "(1 + 1 / 2 ^ 53) * (1 + 1 / 2 ^ 53) / J < (1 - 1 / 2 ^ 53) * (1 - 1 / 2 ^ 53) / I"
      using k I0 J0 by (simp add: field_simps)
    then have "100 * L * ((1 + 1 / 2 ^ 53) * (1 + 1 / 2 ^ 53) / J)
        < 100 * L * ((1 - 1 / 2 ^ 53) * (1 - 1 / 2 ^ 53) / I)"
      using L0 by (intro mult_strict_left_mono) simp_all
    moreover have "100 * (L / J) * (1 + 1 / 2 ^ 53) * (1 + 1 / 2 ^ 53) =
        100 * L * ((1 + 1 / 2 ^ 53) * (1 + 1 / 2 ^ 53) / J)" by simp
    moreover have "100 * (L / I) * (1 - 1 / 2 ^ 53) * (1 - 1 / 2 ^ 53) =
        100 * L * ((1 - 1 / 2 ^ 53) * (1 - 1 / 2 ^ 53) / I)" by simp
    ultimately have "100 * (L / J) * (1 + 1 / 2 ^ 53) * (1 + 1 / 2 ^ 53)
        < 100 * (L / I) * (1 - 1 / 2 ^ 53) * (1 - 1 / 2 ^ 53)" by simp
    with d_hi c_lo have "d < c" unfolding I_def J_def L_def by linarith
    with c d show ?thesis by simp
  qed
qed

section \<open>The claims\<close>

text \<open>
  C2. The claim: when the \<^verbatim>\<open>refresh\<close> of one handler rejects, the failure is caught and
  the pass goes on to the handlers that follow. The loop of \<^verbatim>\<open>_refreshAllAssets\<close> has no
  \<^verbatim>\<open>try\<close> around the \<^verbatim>\<open>await\<close> of line 323 (the loop of \<^verbatim>\<open>clearUnusedAssets\<close>
  has one): in \<open>demo\<close>, when the refresh of A rejects, B is never refreshed, nothing is
  left suspended and the flag \<^verbatim>\<open>_isRefreshing\<close> stays set.
\<close>

theorem refresh_failure_aborts_pass:
  "map fst (refresh_calls (effects (run [Refresh None None, Settle 3 False] demo))) = [0] \<and>
   pending (run [Refresh None None, Settle 3 False] demo) = [] \<and>
   isRefreshing (run [Refresh None None, Settle 3 False] demo) \<and>
   map fst (refresh_calls (effects (run [Refresh None None, Settle 3 True] demo))) = [0, 1]"
  by (simp add: eval_defs demo_def)

text \<open>
  C3. The claim: \<^verbatim>\<open>getAssetsOfComponentId\<close> returns a list and never throws, also for a
  registered component that is not mounted. For the component N of \<open>demo\<close>, line 250 calls
  \<^verbatim>\<open>map\<close> on the \<^verbatim>\<open>undefined\<close> that \<^verbatim>\<open>getAssetsOf\<close> returns.
\<close>

theorem getAssetsOfComponentId_throws:
  "getAssetsOf 12 demo = None \<and> getAssetsOfComponentId ''n'' demo = Inl TypeError \<and>
   getAssetsOfComponentId ''unknown'' demo = Inr []"
  by (simp add: getAssetsOfComponentId_def getAssetsOf_def demo_def)

text \<open>
  C7. A call of \<^verbatim>\<open>addFilesToAssets\<close> while \<^verbatim>\<open>_isRefreshing\<close> is set shows the alert and
  does nothing else: no \<^verbatim>\<open>onDropFiles\<close>, no task feedback, no suspended call, and the
  flags are as they were (no refresh is asked for).
\<close>

theorem addFilesToAssets_busy:
  "isRefreshing s \<Longrightarrow>
   on_event (AddFiles files) s = s\<lparr>effects := effects s @ [AlertShow busy_title busy_message]\<rparr>"
  by (simp add: addFilesToAssets_def emit_def)

theorem addFilesToAssets_busy_witness:
  "isRefreshing (run [Refresh None None] demo) \<and>
   effects (on_event (AddFiles [''f'']) (run [Refresh None None] demo)) =
     effects (run [Refresh None None] demo) @ [AlertShow busy_title busy_message] \<and>
   pending (on_event (AddFiles [''f'']) (run [Refresh None None] demo)) =
     pending (run [Refresh None None] demo)"
proof -
  have h: "isRefreshing (run [Refresh None None] demo)"
    by (simp add: eval_defs demo_def)
  from addFilesToAssets_busy [OF h, of "[''f'']"] h show ?thesis by simp
qed

text \<open>
  C8. The claim: the observer added for a handler is removed as soon as the handler's
  \<^verbatim>\<open>refresh\<close> settles, whether it succeeds or fails. Line 324 runs only when the awaited
  promise resolves: in \<open>demo\<close> the observer of A (number 2) is removed when the refresh of A
  resolves and is still subscribed when it rejects.
\<close>

theorem observer_left_after_rejection:
  "map ob_id (updateAssetObservable (handlers (run [Refresh None None] demo) 0)) = [2] \<and>
   map ob_id (updateAssetObservable (handlers (run [Refresh None None, Settle 3 True] demo) 0)) = [] \<and>
   map ob_id (updateAssetObservable (handlers (run [Refresh None None, Settle 3 False] demo) 0)) = [2]"
  by (simp add: eval_defs demo_def)

text \<open>
  C9. Let the \<^verbatim>\<open>refresh\<close> of a handler be awaited by a pass (promise \<open>p\<close>), in a state
  with at most one pass (every state reached from an idle one is such, \<open>one_pass_run\<close>).
  When the promise rejects, then whatever events \<open>es\<close> follow: \<^verbatim>\<open>_isRefreshing\<close> is still
  set, no pass executes, no handler has been refreshed since, a call of \<^verbatim>\<open>refresh\<close> or
  \<^verbatim>\<open>forceRefresh\<close> only sets \<^verbatim>\<open>_needsRefresh\<close>, and \<^verbatim>\<open>addFilesToAssets\<close> only shows
  the alert.
\<close>

theorem rejection_sticks:
  assumes "one_pass s" and "map_of (pending s) p = Some (RefreshAwait cx c rest aS ob)"
  shows "let t = run es (on_event (Settle p False) s) in
           isRefreshing t \<and> passes t = 0 \<and>
           refresh_calls (effects t) = refresh_calls (effects s) \<and>
           on_event (Refresh cc obj) t = t\<lparr>needsRefresh := True\<rparr> \<and>
           on_event (ForceRefresh cc) t = t\<lparr>needsRefresh := True\<rparr> \<and>
           on_event (AddFiles files) t =
             t\<lparr>effects := effects t @ [AlertShow busy_title busy_message]\<rparr>"
proof -
  let ?s = "s\<lparr>pending := filter (\<lambda>q. fst q \<noteq> p) (pending s)\<rparr>"
  let ?r = "on_event (Settle p False) s"
  have r: "?r = rejected HandlerFailure ?s"
    using assms(2) by (simp add: resume_def)
  from assms(2) have "passes ?s < passes s"
    unfolding passes_def
    using passes_filter_less [of "pending s" p "RefreshAwait cx c rest aS ob"] by simp
  with assms(1) have "passes ?s = 0" and "isRefreshing ?s"
    by (auto simp: one_pass_def)
  with r have st: "isRefreshing ?r" "passes ?r = 0"
    and eff: "refresh_calls (effects ?r) = refresh_calls (effects s)"
    by simp_all
  from stuck_run [OF st, of es] eff
  have t: "isRefreshing (run es ?r)" "passes (run es ?r) = 0"
    "refresh_calls (effects (run es ?r)) = refresh_calls (effects s)"
    by simp_all
  from t(1) have
    "on_event (Refresh cc obj) (run es ?r) = (run es ?r)\<lparr>needsRefresh := True\<rparr>"
    "on_event (ForceRefresh cc) (run es ?r) = (run es ?r)\<lparr>needsRefresh := True\<rparr>"
    "on_event (AddFiles files) (run es ?r) =
       (run es ?r)\<lparr>effects := effects (run es ?r) @ [AlertShow busy_title busy_message]\<rparr>"
    by (simp_all add: refresh_def forceRefresh_def busy_refreshAllAssets resolved_def
          addFilesToAssets_def emit_def)
  with t show ?thesis by (simp add: Let_def)
qed

theorem rejection_sticks_witness:
  "one_pass (run [Refresh None None] demo) \<and>
   map_of (pending (run [Refresh None None] demo)) 3 =
     Some (RefreshAwait demo_ctx (hd (assetComponents demo)) (tl (assetComponents demo))
             (js_div (js_div (Fin 100) (js_of_nat 3)) (js_of_nat 2)) 2) \<and>
   isRefreshing (run [Refresh None None, AddFiles [''f''], Settle 5 True]
     (on_event (Settle 3 False) (run [Refresh None None] demo))) \<and>
   passes (run [Refresh None None, AddFiles [''f''], Settle 5 True]
     (on_event (Settle 3 False) (run [Refresh None None] demo))) = 0"
proof -
  have h1: "one_pass (run [Refresh None None] demo)"
    by (simp add: eval_defs demo_def)
  have h2: "map_of (pending (run [Refresh None None] demo)) 3 =
     Some (RefreshAwait demo_ctx (hd (assetComponents demo)) (tl (assetComponents demo))
             (js_div (js_div (Fin 100) (js_of_nat 3)) (js_of_nat 2)) 2)"
    by (simp add: eval_defs demo_def demo_ctx_def item_a_def item_b_def)
  from rejection_sticks [OF h1 h2, of "[Refresh None None, AddFiles [''f''], Settle 5 True]"]
    h1 h2
  show ?thesis by (simp add: Let_def)
qed





text \<open>
  C1. From an idle coordinator (whose mounted handlers hold item arrays), let a call of
  \<^verbatim>\<open>_refreshAllAssets\<close> with any arguments start a pass. While the pass is in flight,
  let calls of \<^verbatim>\<open>refresh\<close> and \<^verbatim>\<open>forceRefresh\<close> arrive, with any arguments and at
  least one in all: the batches \<open>bs\<close>, each followed by the resolution of the handler that
  is awaited, then the batch \<open>calls\<close>. Then: whatever the events, at most one pass
  executes at a time; a refresh call that finds \<^verbatim>\<open>_isRefreshing\<close> set does nothing but
  set \<^verbatim>\<open>_needsRefresh\<close>; and when the handlers go on resolving, the calls of the handlers
  are those of the first pass followed by those of exactly one more pass, over every
  mounted handler, with no object and with the items as the first pass left them (not
  cleared), after which the coordinator is idle.
\<close>

theorem coalesced_rerun:
  assumes "idle s" and "items_defined s"
    and "length bs < length (targets cc (assetComponents s))"
    and "\<forall>b\<in>set (calls # bs). \<forall>e\<in>set b. is_refresh_call e"
    and "\<exists>b\<in>set (calls # bs). b \<noteq> []"
    and "length (targets cc (assetComponents s)) + length (targets None (assetComponents s)) \<le> n"
  shows "let s1 = during bs (refreshAllAssets cc obj f aw s);
             t = resolve is_refresh n (run calls s1)
         in (\<forall>es. passes (run es s) \<le> 1) \<and>
            (\<forall>(s'::state) e. isRefreshing s' \<and> is_refresh_call e \<longrightarrow>
               on_event e s' = s'\<lparr>needsRefresh := True\<rparr>) \<and>
            isRefreshing s1 \<and> passes s1 = 1 \<and>
            idle t \<and>
            refresh_calls (effects t) =
              refresh_calls (effects s) @
              map (entry f obj s) (targets cc (assetComponents s)) @
              map (\<lambda>a. (a, None,
                         if forced f \<and> a \<in> set (targets cc (assetComponents s)) then Some []
                         else items (handlers s a)))
                (targets None (assetComponents s))"
proof -
  let ?cs = "assetComponents s"
  let ?t0 = "refreshAllAssets cc obj f aw s"
  let ?s1 = "during bs ?t0"
  let ?s2 = "run calls ?s1"
  from assms(1) have i: "\<not> isRefreshing s" "\<not> needsRefresh s" "pending s = []"
    by (simp_all add: idle_def)
  from assms(3) obtain a T where T: "targets cc ?cs = a # T" and k: "length bs \<le> length T"
    by (cases "targets cc ?cs") auto
  from start_pass [OF i assms(2), of cc obj f aw] T
  obtain cx where cx: "object cx = obj" "force cx = f" and r: "running cx T ?t0"
    and a0: "advanced f obj [a] s ?t0" and n0: "\<not> needsRefresh ?t0" by blast
  from assms(4) have cb: "\<forall>b\<in>set bs. \<forall>e\<in>set b. is_refresh_call e"
    and cc: "\<forall>e\<in>set calls. is_refresh_call e" by simp_all
  from during_running [OF r k cb] cx n0
  have r1: "running cx (drop (length bs) T) ?s1"
    and a1: "advanced f obj (take (length bs) T) ?t0 ?s1"
    and n1: "needsRefresh ?s1 = (\<exists>b\<in>set bs. b \<noteq> [])"
    by simp_all
  from advanced_trans [OF a0 a1] have a01: "advanced f obj (a # take (length bs) T) s ?s1"
    by simp
  from running_pending [OF r1] have b: "isRefreshing ?s1" "passes ?s1 = 1" by simp_all
  from busy_calls [OF b(1) cc]
  have s2: "?s2 = (if calls = [] then ?s1 else ?s1\<lparr>needsRefresh := True\<rparr>)" .
  with r1 have r2: "running cx (drop (length bs) T) ?s2" by (simp add: running_flag)
  from s2 n1 assms(5) have n2: "needsRefresh ?s2" by auto
  from s2 have a12: "advanced f obj [] ?s1 ?s2" by (simp add: advanced_def)
  from advanced_trans [OF a01 a12] have a02: "advanced f obj (a # take (length bs) T) s ?s2"
    by simp
  then have c2: "assetComponents ?s2 = ?cs" by (simp add: advanced_def)
  have "length (drop (length bs) T) + length (targets None (assetComponents ?s2)) < n"
    using assms(6) T c2 by simp
  from drain_rerun [OF r2 n2 this] cx c2 obtain u where
    idl: "idle (resolve is_refresh n ?s2)" and u1: "advanced f obj (drop (length bs) T) ?s2 u"
    and u2: "advanced None None (targets None ?cs) u (resolve is_refresh n ?s2)"
    by auto
  from advanced_trans [OF a02 u1]
  have au: "advanced f obj (targets cc ?cs) s u" using T by simp
  have "map (entry None None u) (targets None ?cs) =
        map (\<lambda>a. (a, None, if forced f \<and> a \<in> set (targets cc ?cs) then Some []
                            else items (handlers s a))) (targets None ?cs)"
    using au by (simp add: advanced_def entry_def forced_def)
  with au u2 have "refresh_calls (effects (resolve is_refresh n ?s2)) =
      refresh_calls (effects s) @ map (entry f obj s) (targets cc ?cs) @
      map (\<lambda>a. (a, None, if forced f \<and> a \<in> set (targets cc ?cs) then Some []
                          else items (handlers s a))) (targets None ?cs)"
    by (simp add: advanced_def)
  moreover have "\<forall>es. passes (run es s) \<le> 1"
    using one_pass_run [OF idle_one_pass [OF assms(1)]] by (simp add: one_pass_def)
  moreover have "\<forall>(s'::state) e. isRefreshing s' \<and> is_refresh_call e \<longrightarrow>
      on_event e s' = s'\<lparr>needsRefresh := True\<rparr>"
  proof (intro allI impI)
    fix s' :: state and e assume "isRefreshing s' \<and> is_refresh_call e"
    then show "on_event e s' = s'\<lparr>needsRefresh := True\<rparr>"
      by (cases e) (simp_all add: refresh_def forceRefresh_def busy_refreshAllAssets resolved_def)
  qed
  ultimately show ?thesis using b idl by (simp add: Let_def)
qed

theorem coalesced_rerun_witness:
  "idle demo \<and> items_defined demo \<and>
   length [[Refresh (Some 10) None]] < length (targets None (assetComponents demo)) \<and>
   idle (resolve is_refresh 4 (run [ForceRefresh None]
     (during [[Refresh (Some 10) None]] (refreshAllAssets None None None Detached demo)))) \<and>
   map fst (refresh_calls (effects (resolve is_refresh 4 (run [ForceRefresh None]
     (during [[Refresh (Some 10) None]] (refreshAllAssets None None None Detached demo)))))) =
     [0, 1, 0, 1]"
proof -
  have h1: "idle demo" by (simp add: idle_def demo_def)
  have h2: "items_defined demo" by (simp add: items_defined_def demo_def)
  have T: "targets None (assetComponents demo) = [0, 1]"
    by (simp add: demo_def skipped_def)
  have h3: "length [[Refresh (Some 10) None]] < length (targets None (assetComponents demo))"
    by (simp add: T)
  have h4: "\<forall>b\<in>set ([ForceRefresh None] # [[Refresh (Some 10) None]]).
      \<forall>e\<in>set b. is_refresh_call e" by simp
  have h5: "\<exists>b\<in>set ([ForceRefresh None] # [[Refresh (Some 10) None]]). b \<noteq> []" by simp
  have h6: "length (targets None (assetComponents demo)) +
      length (targets None (assetComponents demo)) \<le> 4" by (simp add: T)
  have e: "effects demo = []" by (simp add: demo_def)
  note th = coalesced_rerun [OF h1 h2 h3 h4 h5 h6, where obj = None and f = None
    and aw = Detached, unfolded Let_def]
  from th have i: "idle (resolve is_refresh 4 (run [ForceRefresh None]
     (during [[Refresh (Some 10) None]] (refreshAllAssets None None None Detached demo))))"
    by blast
  from th have c: "refresh_calls (effects (resolve is_refresh 4 (run [ForceRefresh None]
     (during [[Refresh (Some 10) None]] (refreshAllAssets None None None Detached demo))))) =
     refresh_calls (effects demo) @
     map (entry None None demo) (targets None (assetComponents demo)) @
     map (\<lambda>a. (a, None,
                if forced None \<and> a \<in> set (targets None (assetComponents demo)) then Some []
                else items (handlers demo a)))
       (targets None (assetComponents demo))"
    by blast
  have "map fst (refresh_calls (effects (resolve is_refresh 4 (run [ForceRefresh None]
     (during [[Refresh (Some 10) None]] (refreshAllAssets None None None Detached demo)))))) =
     [0, 1, 0, 1]"
    unfolding c by (simp add: T e entry_def)
  with h1 h2 h3 i show ?thesis by blast
qed

text \<open>
  C5. From an idle coordinator (whose mounted handlers hold item arrays), a pass without
  filter, whatever its other arguments: when \<open>k\<close> of the awaited calls have resolved, the
  handlers called so far are the first \<open>k + 1\<close> mounted instances in the order of the
  registry, each called once; at most one call is awaited at any time (the next handler is
  called when the one before has resolved); and once all have resolved, every mounted
  instance has been called and the coordinator is idle.
\<close>

theorem unfiltered_pass_in_order:
  assumes "idle s" and "items_defined s"
  shows "let t = resolve is_refresh k (refreshAllAssets None obj f aw s);
             hs = List.map_filter ref (assetComponents s)
         in refresh_calls (effects t) =
              refresh_calls (effects s) @ map (entry f obj s) (take (Suc k) hs) \<and>
            length (pending t) \<le> 1 \<and>
            (length hs \<le> k \<longrightarrow> idle t)"
  using pass_prefix [OF assms, of f obj k None aw]
  by (simp add: Let_def targets_None advanced_def)

theorem unfiltered_pass_in_order_witness:
  "idle demo \<and> items_defined demo \<and>
   map fst (refresh_calls (effects (refreshAllAssets None None None Detached demo))) = [0] \<and>
   map fst (refresh_calls (effects
     (resolve is_refresh 1 (refreshAllAssets None None None Detached demo)))) = [0, 1] \<and>
   idle (resolve is_refresh 2 (refreshAllAssets None None None Detached demo))"
proof -
  have h1: "idle demo" by (simp add: idle_def demo_def)
  have h2: "items_defined demo" by (simp add: items_defined_def demo_def)
  have T: "List.map_filter ref (assetComponents demo) = [0, 1]"
    by (simp add: demo_def List.map_filter_simps)
  have e: "effects demo = []" by (simp add: demo_def)
  note th = unfiltered_pass_in_order [OF h1 h2, where obj = None and f = None
    and aw = Detached, unfolded Let_def T e]
  from th [of 0] have c0:
    "refresh_calls (effects (refreshAllAssets None None None Detached demo)) =
       [] @ map (entry None None demo) (take (Suc 0) [0, 1])"
    by simp
  from th [of 1] have c1:
    "refresh_calls (effects (resolve is_refresh 1 (refreshAllAssets None None None Detached demo))) =
       refresh_calls [] @ map (entry None None demo) (take (Suc 1) [0, 1])"
    by blast
  from th [of 2] have i: "idle (resolve is_refresh 2 (refreshAllAssets None None None Detached demo))"
    by simp
  have "map fst (refresh_calls (effects (refreshAllAssets None None None Detached demo))) = [0]"
    unfolding c0 by (simp add: entry_def)
  moreover have "map fst (refresh_calls (effects
     (resolve is_refresh 1 (refreshAllAssets None None None Detached demo)))) = [0, 1]"
    unfolding c1 by (simp add: entry_def)
  ultimately show ?thesis using h1 h2 i by blast
qed

text \<open>
  C6. \<^verbatim>\<open>forceRefresh(component)\<close> is \<^verbatim>\<open>_refreshAllAssets(component, undefined, true)\<close>.
  From an idle coordinator (whose mounted handlers hold item arrays), in a pass with
  \<^verbatim>\<open>force\<close> set to \<^verbatim>\<open>true\<close>, whatever its other arguments: when \<open>k\<close> of the awaited
  calls have resolved, the handlers called so far are the first \<open>k + 1\<close> of those that pass
  the filter and are mounted, each of them found its item list empty when it was called,
  and their item lists are empty.
\<close>

theorem forced_pass_clears_items:
  assumes "idle s" and "items_defined s"
  shows "forceRefresh cc s' = refreshAllAssets cc None (Some True) Detached s' \<and>
         on_event (ForceRefresh cc) s' = refreshAllAssets cc None (Some True) Detached s' \<and>
         (let t = resolve is_refresh k (refreshAllAssets cc obj (Some True) aw s);
              hs = take (Suc k) (targets cc (assetComponents s))
          in refresh_calls (effects t) = refresh_calls (effects s) @ map (\<lambda>a. (a, obj, Some [])) hs \<and>
             list_all (\<lambda>a. items (handlers t a) = Some []) hs)"
proof -
  have "map (entry (Some True) obj s) (take (Suc k) (targets cc (assetComponents s))) =
        map (\<lambda>a. (a, obj, Some [])) (take (Suc k) (targets cc (assetComponents s)))"
    by (simp add: entry_def forced_def)
  with pass_prefix [OF assms, of "Some True" obj k cc aw] show ?thesis
    by (simp add: Let_def advanced_def forceRefresh_def forced_def list_all_iff)
qed

theorem forced_pass_clears_items_witness:
  "idle demo \<and> items_defined demo \<and>
   items (handlers demo 0) = Some [item_a, item_b] \<and>
   refresh_calls (effects (on_event (ForceRefresh (Some 10)) demo)) = [(0, None, Some [])] \<and>
   items (handlers (on_event (ForceRefresh (Some 10)) demo) 0) = Some []"
proof -
  have h1: "idle demo" by (simp add: idle_def demo_def)
  have h2: "items_defined demo" by (simp add: items_defined_def demo_def)
  have T: "targets (Some 10) (assetComponents demo) = [0]"
    by (simp add: demo_def skipped_def)
  have e: "effects demo = []" "items (handlers demo 0) = Some [item_a, item_b]"
    by (simp_all add: demo_def)
  note th = forced_pass_clears_items [OF h1 h2, where cc = "Some 10" and s' = demo and k = 0
    and obj = None and aw = Detached, unfolded Let_def T e]
  from th have "refresh_calls (effects (on_event (ForceRefresh (Some 10)) demo)) = [(0, None, Some [])]"
    and "items (handlers (on_event (ForceRefresh (Some 10)) demo) 0) = Some []"
    by simp_all
  with h1 h2 e show ?thesis by blast
qed

text \<open>
  C10. A call of \<^verbatim>\<open>addFilesToAssets\<close> that is not turned away (the coordinator is not
  refreshing; nothing is suspended), with \<open>len\<close> mounted handlers, at least one and fewer
  than \<open>2 ^ 32\<close> (the bound of an array's length), whose \<^verbatim>\<open>onDropFiles\<close> calls resolve:
  the values handed to \<^verbatim>\<open>updateTaskFeedback\<close> are, in this order, the doubles
  \<^verbatim>\<open>len / i * 100\<close> for \<open>i\<close> from 0 to \<open>len - 1\<close>, the quotient and the product each
  rounded to the nearest double. The first is a division by zero (\<^verbatim>\<open>Infinity\<close>), and
  each value is strictly smaller than the ones before it.
\<close>

theorem addFiles_progress:
  assumes "\<not> isRefreshing s" and "pending s = []"
    and "len = length (List.map_filter ref (assetComponents s))" and "1 \<le> len"
    and "len < 2 ^ 32" and "len \<le> n"
  shows "progress_updates (effects (resolve is_drop n (on_event (AddFiles files) s))) =
           progress_updates (effects s) @ map (drop_progress len) [0..<len] \<and>
         (\<forall>i. drop_progress len i = js_mul (js_div (js_of_nat len) (js_of_nat i)) (Fin 100)) \<and>
         drop_progress len 0 = PInf \<and>
         (\<forall>i j. i < j \<and> j < len \<longrightarrow> js_less (drop_progress len j) (drop_progress len i))"
proof -
  let ?s1 = "emit (AddTaskFeedback (nextId s) (Fin 0) ''Loading Files...'' None)
               (s\<lparr>nextId := Suc (nextId s)\<rparr>)"
  have "on_event (AddFiles files) s =
        addFiles_loop files (nextId s) len 0 (List.map_filter ref (assetComponents s)) ?s1"
    using assms(1,3) by (simp add: addFilesToAssets_def Let_def)
  moreover have "pending ?s1 = []" using assms(2) by simp
  ultimately have "progress_updates (effects (resolve is_drop n (on_event (AddFiles files) s))) =
           progress_updates (effects s) @ map (drop_progress len) [0..<len]"
    using addFiles_loop_drained [of ?s1 "List.map_filter ref (assetComponents s)" n files
        "nextId s" len 0] assms(3,6)
    by simp
  moreover have "\<forall>i. drop_progress len i = js_mul (js_div (js_of_nat len) (js_of_nat i)) (Fin 100)"
    by (simp add: drop_progress_def)
  moreover have "drop_progress len 0 = PInf" using assms(4) by (simp add: drop_progress_zero)
  moreover have "\<forall>i j. i < j \<and> j < len \<longrightarrow> js_less (drop_progress len j) (drop_progress len i)"
    using assms(5) by (auto intro: drop_progress_decreasing)
  ultimately show ?thesis by blast
qed

theorem addFiles_progress_witness:
  "\<not> isRefreshing trio \<and> pending trio = [] \<and>
   length (List.map_filter ref (assetComponents trio)) = 3 \<and>
   progress_updates (effects (resolve is_drop 3 (on_event (AddFiles [''f'']) trio))) =
     [PInf, Fin 300, Fin 150] \<and>
   js_less (Fin 150) (Fin 300) \<and> js_less (Fin 300) PInf \<and>
   drop_progress 7 3 = Fin (8209686820727467 / 35184372088832)"
proof -
  have h1: "\<not> isRefreshing trio" and h2: "pending trio = []"
    and h3: "3 = length (List.map_filter ref (assetComponents trio))"
    and e: "effects trio = []"
    by (simp_all add: trio_def List.map_filter_simps)
  have h4: "1 \<le> (3::nat)" and h5: "(3::nat) < 2 ^ 32" and h6: "(3::nat) \<le> 3" by simp_all
  have u: "[0..<3] = [0, 1, 2]" by (simp add: upt_rec)
  have v: "drop_progress 3 0 = PInf" "drop_progress 3 (Suc 0) = Fin 300"
    "drop_progress 3 2 = Fin 150"
    by (simp_all add: drop_progress_def js_of_nat_def round64_values)
  from addFiles_progress [OF h1 h2 h3 h4 h5 h6, of "[''f'']"]
  have "progress_updates (effects (resolve is_drop 3 (on_event (AddFiles [''f'']) trio))) =
      progress_updates (effects trio) @ map (drop_progress 3) [0..<3]"
    by blast
  then have "progress_updates (effects (resolve is_drop 3 (on_event (AddFiles [''f'']) trio))) =
      [PInf, Fin 300, Fin 150]"
    unfolding e u by (simp add: v)
  moreover have "drop_progress 7 3 = Fin (8209686820727467 / 35184372088832)"
    by (simp add: drop_progress_def js_of_nat_def round64_values)
  ultimately show ?thesis using h1 h2 h3 by simp
qed

end
